theory Spec2Isabelle
  imports Complex_Main "HOL-Library.Word" "HOL-Library.AList"
begin

unbundle bit_operations_syntax

section \<open>Buffers and the hex encoding\<close>

text \<open>
  A Node \<open>Buffer\<close> is a list of bytes. Text (the chunks read from a socket, the lines
  written to one, JavaScript strings) is a \<open>string\<close>, one \<open>char\<close> per byte of its
  UTF-8 form; everything the server writes or compares with is ASCII.
\<close>

type_synonym byte = "8 word"
type_synonym buffer = "byte list"

definition hex_digit :: "nat \<Rightarrow> char" where
  "hex_digit n = ''0123456789abcdef'' ! (n mod 16)"

text \<open>\<open>buf.toString('hex')\<close>: two lower-case digits per byte.\<close>

definition hex_encode :: "buffer \<Rightarrow> string" where
  "hex_encode buf = concat (map (\<lambda>b. [hex_digit (unat b div 16), hex_digit (unat b mod 16)]) buf)"

definition hex_val :: "char \<Rightarrow> nat option" where
  "hex_val c =
     (let n = (of_char c :: nat) in
      if 48 \<le> n \<and> n \<le> 57 then Some (n - 48)
      else if 97 \<le> n \<and> n \<le> 102 then Some (n - 87)
      else if 65 \<le> n \<and> n \<le> 70 then Some (n - 55)
      else None)"

text \<open>
  \<open>Buffer.from(s, 'hex')\<close> on a string of ASCII characters: pairs of hex digits are
  decoded until the first pair that is not two hex digits; an odd last character is
  dropped.
\<close>

fun hex_decode :: "string \<Rightarrow> buffer" where
  "hex_decode (a # b # cs) =
     (case hex_val a of
        None \<Rightarrow> []
      | Some h \<Rightarrow>
         (case hex_val b of
            None \<Rightarrow> []
          | Some l \<Rightarrow> of_nat (16 * h + l) # hex_decode cs))"
| "hex_decode cs = []"

section \<open>The crypto engine: \<open>aes-256-cbc\<close> under one key and IV\<close>

text \<open>
  \<open>ENCRYPTION_KEY\<close> and \<open>ENCRYPTION_IV\<close> are drawn once by \<open>crypto.randomBytes\<close>, so
  they are parameters here. The AES block transformation itself belongs to Node's
  \<open>crypto\<close> module, not to the repository: it is the pair of parameters
  \<open>aes_encrypt_block\<close> and \<open>aes_decrypt_block\<close> (key, then a 16-byte block).
  What \<open>createCipheriv('aes-256-cbc', key, iv)\<close> adds around it is written out: PKCS#7
  padding to a multiple of 16 bytes, cipher block chaining from the IV, and on
  decryption the check of the final block that makes \<open>decipher.final()\<close> throw.
  \<open>Buffer_from_object\<close> stands for what \<open>Buffer.from\<close> makes of an array or an object
  (Node's array-like conversion), which is library code as well. So is
  \<open>Buffer_from_wide\<close>, Node's hex decoder on a string that has a character outside
  ASCII: the decoder reads every UTF-16 code unit of the string by its low byte (the
  unit U+0130 counts as the digit \<open>0\<close>), and the bytes that stand for a string here
  do not give its code units.
\<close>

datatype js_error = TypeError

datatype json =
    JNull
  | JBool bool
  | JNumber rat
  | JString string
  | JArray "json list"
  | JObject "(string \<times> json) list"

record node_env =
  ENCRYPTION_KEY :: buffer
  ENCRYPTION_IV :: buffer
  aes_encrypt_block :: "buffer \<Rightarrow> buffer \<Rightarrow> buffer"
  aes_decrypt_block :: "buffer \<Rightarrow> buffer \<Rightarrow> buffer"
  Buffer_from_object :: "json \<Rightarrow> js_error + buffer"
  Buffer_from_wide :: "string \<Rightarrow> buffer"

definition xor_block :: "buffer \<Rightarrow> buffer \<Rightarrow> buffer" where
  "xor_block a b = map2 (XOR) a b"

text \<open>The 16-byte blocks of a buffer, the last one possibly shorter.\<close>

fun blocks :: "buffer \<Rightarrow> buffer list" where
  "blocks [] = []"
| "blocks (x # xs) = take 16 (x # xs) # blocks (drop 15 xs)"

definition pkcs7_pad :: "buffer \<Rightarrow> buffer" where
  "pkcs7_pad data =
     (let n = 16 - length data mod 16 in data @ replicate n (of_nat n))"

definition pkcs7_unpad :: "buffer \<Rightarrow> buffer option" where
  "pkcs7_unpad plain =
     (if plain = [] then None
      else
        let n = unat (last plain) in
        if n = 0 \<or> 16 < n \<or> length plain < n then None
        else if drop (length plain - n) plain = replicate n (last plain)
        then Some (take (length plain - n) plain)
        else None)"

fun cbc_encrypt_blocks :: "(buffer \<Rightarrow> buffer) \<Rightarrow> buffer \<Rightarrow> buffer list \<Rightarrow> buffer list" where
  "cbc_encrypt_blocks E prev [] = []"
| "cbc_encrypt_blocks E prev (p # ps) =
     (let c = E (xor_block p prev) in c # cbc_encrypt_blocks E c ps)"

fun cbc_decrypt_blocks :: "(buffer \<Rightarrow> buffer) \<Rightarrow> buffer \<Rightarrow> buffer list \<Rightarrow> buffer list" where
  "cbc_decrypt_blocks D prev [] = []"
| "cbc_decrypt_blocks D prev (c # cs) = xor_block (D c) prev # cbc_decrypt_blocks D c cs"

text \<open>\<open>VPNServer.prototype.encrypt\<close>: \<open>cipher.update(data)\<close> followed by \<open>cipher.final()\<close>.\<close>

definition encrypt :: "'a node_env_scheme \<Rightarrow> buffer \<Rightarrow> buffer" where
  "encrypt env data =
     concat (cbc_encrypt_blocks (aes_encrypt_block env (ENCRYPTION_KEY env))
               (ENCRYPTION_IV env) (blocks (pkcs7_pad data)))"

text \<open>
  \<open>VPNServer.prototype.decrypt\<close>: the \<open>try\<close> block returns the plaintext, the
  \<open>catch\<close> returns \<open>null\<close>, here \<open>None\<close>. \<open>decipher.final()\<close> throws when the input is
  empty or not a whole number of blocks, and when the padding of the last block is bad.
\<close>

definition cbc_plain :: "'a node_env_scheme \<Rightarrow> buffer \<Rightarrow> buffer" where
  "cbc_plain env data =
     concat (cbc_decrypt_blocks (aes_decrypt_block env (ENCRYPTION_KEY env))
               (ENCRYPTION_IV env) (blocks data))"

definition decrypt :: "'a node_env_scheme \<Rightarrow> buffer \<Rightarrow> buffer option" where
  "decrypt env data =
     (if data = [] \<or> length data mod 16 \<noteq> 0 then None
      else pkcs7_unpad (cbc_plain env data))"

text \<open>
  What the constants of the source guarantee: a 32-byte key, a 16-byte IV, and AES
  being a permutation of the 16-byte blocks whose inverse is its decryption.
\<close>

definition env_ok :: "'a node_env_scheme \<Rightarrow> bool" where
  "env_ok env \<longleftrightarrow>
     length (ENCRYPTION_KEY env) = 32 \<and> length (ENCRYPTION_IV env) = 16 \<and>
     (\<forall>b. length b = 16 \<longrightarrow>
        length (aes_encrypt_block env (ENCRYPTION_KEY env) b) = 16 \<and>
        aes_decrypt_block env (ENCRYPTION_KEY env) (aes_encrypt_block env (ENCRYPTION_KEY env) b) = b)"

section \<open>\<open>JSON.parse\<close>\<close>

text \<open>
  \<open>JSON.parse\<close> is the library's; the server's behaviour on a chunk depends on whether
  the chunk is one JSON text, so the grammar of ECMA-404 is written out: a tokenizer,
  then a recursive-descent parser. A number is kept as the exact rational its literal
  denotes. \<open>None\<close> is the \<open>SyntaxError\<close> that \<open>JSON.parse\<close> throws.
\<close>

datatype token =
    TLBrace | TRBrace | TLBracket | TRBracket | TColon | TComma
  | TString string | TNumber rat | TTrue | TFalse | TNull

definition is_ws :: "char \<Rightarrow> bool" where
  "is_ws c \<longleftrightarrow> c = CHR 0x20 \<or> c = CHR 0x09 \<or> c = CHR 0x0A \<or> c = CHR 0x0D"

definition is_digit :: "char \<Rightarrow> bool" where
  "is_digit c \<longleftrightarrow> 48 \<le> (of_char c :: nat) \<and> (of_char c :: nat) \<le> 57"

definition digit_val :: "char \<Rightarrow> nat" where
  "digit_val c = of_char c - 48"

definition nat_of_digits :: "string \<Rightarrow> nat" where
  "nat_of_digits ds = foldl (\<lambda>n c. 10 * n + digit_val c) 0 ds"

text \<open>
  An escaped code unit \<open>\uXXXX\<close> above 0x7F is kept as the bytes of its UTF-8 form
  (each unit on its own). The server compares strings with ASCII literals, and no
  byte above 0x7F is an ASCII character; the hex decoding of a string with such a
  byte is the library's (\<open>Buffer_from_wide\<close>).
\<close>

definition utf8_unit :: "nat \<Rightarrow> string" where
  "utf8_unit n =
     (if n < 128 then [char_of n]
      else if n < 2048 then [char_of (192 + n div 64), char_of (128 + n mod 64)]
      else [char_of (224 + n div 4096), char_of (128 + (n div 64) mod 64), char_of (128 + n mod 64)])"

definition hex4 :: "char \<Rightarrow> char \<Rightarrow> char \<Rightarrow> char \<Rightarrow> nat option" where
  "hex4 a b c d =
     (case (hex_val a, hex_val b, hex_val c, hex_val d) of
        (Some w, Some x, Some y, Some z) \<Rightarrow> Some (4096 * w + 256 * x + 16 * y + z)
      | _ \<Rightarrow> None)"

definition simple_escape :: "char \<Rightarrow> char option" where
  "simple_escape e =
     (if e = CHR 0x22 \<or> e = CHR 0x5C \<or> e = CHR ''/'' then Some e
      else if e = CHR ''b'' then Some (CHR 0x08)
      else if e = CHR ''f'' then Some (CHR 0x0C)
      else if e = CHR ''n'' then Some (CHR 0x0A)
      else if e = CHR ''r'' then Some (CHR 0x0D)
      else if e = CHR ''t'' then Some (CHR 0x09)
      else None)"

text \<open>The characters after the opening quote: the string's content and the rest of the input.\<close>

fun lex_string :: "string \<Rightarrow> string \<Rightarrow> (string \<times> string) option" where
  "lex_string acc [] = None"
| "lex_string acc (c # cs) =
     (if c = CHR 0x22 then Some (rev acc, cs)
      else if c = CHR 0x5C then
        (case cs of
           [] \<Rightarrow> None
         | e # cs' \<Rightarrow>
             if e = CHR ''u'' then
               (case cs' of
                  h1 # h2 # h3 # h4 # cs'' \<Rightarrow>
                    (case hex4 h1 h2 h3 h4 of
                       None \<Rightarrow> None
                     | Some n \<Rightarrow> lex_string (rev (utf8_unit n) @ acc) cs'')
                | _ \<Rightarrow> None)
             else
               (case simple_escape e of
                  None \<Rightarrow> None
                | Some x \<Rightarrow> lex_string (x # acc) cs'))
      else if (of_char c :: nat) < 32 then None
      else lex_string (c # acc) cs)"

text \<open>
  A number literal: \<open>-? (0 | [1-9][0-9]*) (. [0-9]+)? ([eE] [+-]? [0-9]+)?\<close>, with its
  value and the rest of the input.
\<close>

definition lex_digits :: "string \<Rightarrow> (string \<times> string) option" where
  "lex_digits cs =
     (if takeWhile is_digit cs = [] then None
      else Some (takeWhile is_digit cs, dropWhile is_digit cs))"

definition lex_frac :: "string \<Rightarrow> (rat \<times> string) option" where
  "lex_frac cs =
     (case cs of
        [] \<Rightarrow> Some (0, [])
      | c # cs' \<Rightarrow>
          if c = CHR ''.'' then
            (case lex_digits cs' of
               None \<Rightarrow> None
             | Some (fs, r) \<Rightarrow> Some (of_nat (nat_of_digits fs) / 10 ^ length fs, r))
          else Some (0, cs))"

definition lex_exp_digits :: "bool \<Rightarrow> string \<Rightarrow> (int \<times> string) option" where
  "lex_exp_digits neg cs =
     (case lex_digits cs of
        None \<Rightarrow> None
      | Some (es, r) \<Rightarrow>
          Some (if neg then - int (nat_of_digits es) else int (nat_of_digits es), r))"

definition lex_exp :: "string \<Rightarrow> (int \<times> string) option" where
  "lex_exp cs =
     (case cs of
        [] \<Rightarrow> Some (0, [])
      | c # cs' \<Rightarrow>
          if c = CHR ''e'' \<or> c = CHR ''E'' then
            (case cs' of
               [] \<Rightarrow> None
             | s # cs'' \<Rightarrow>
                 if s = CHR ''-'' then lex_exp_digits True cs''
                 else if s = CHR ''+'' then lex_exp_digits False cs''
                 else lex_exp_digits False cs')
          else Some (0, cs))"

definition pow10 :: "int \<Rightarrow> rat" where
  "pow10 e = (if e < 0 then 1 / 10 ^ nat (- e) else 10 ^ nat e)"

definition lex_unsigned :: "string \<Rightarrow> (rat \<times> string) option" where
  "lex_unsigned cs =
     (case lex_digits cs of
        None \<Rightarrow> None
      | Some (ds, r1) \<Rightarrow>
          if 1 < length ds \<and> hd ds = CHR ''0'' then None
          else
            (case lex_frac r1 of
               None \<Rightarrow> None
             | Some (f, r2) \<Rightarrow>
                 (case lex_exp r2 of
                    None \<Rightarrow> None
                  | Some (e, r3) \<Rightarrow> Some ((of_nat (nat_of_digits ds) + f) * pow10 e, r3))))"

definition lex_number :: "string \<Rightarrow> (rat \<times> string) option" where
  "lex_number cs =
     (case cs of
        [] \<Rightarrow> None
      | c # cs' \<Rightarrow>
          if c = CHR ''-'' then map_option (\<lambda>(v, r). (- v, r)) (lex_unsigned cs')
          else lex_unsigned cs)"

function tokenize :: "string \<Rightarrow> token list option" where
  "tokenize [] = Some []"
| "tokenize (c # cs) =
     (if is_ws c then tokenize cs
      else if c = CHR ''{'' then map_option (Cons TLBrace) (tokenize cs)
      else if c = CHR ''}'' then map_option (Cons TRBrace) (tokenize cs)
      else if c = CHR ''['' then map_option (Cons TLBracket) (tokenize cs)
      else if c = CHR '']'' then map_option (Cons TRBracket) (tokenize cs)
      else if c = CHR '':'' then map_option (Cons TColon) (tokenize cs)
      else if c = CHR '','' then map_option (Cons TComma) (tokenize cs)
      else if c = CHR 0x22 then
        (case lex_string [] cs of
           None \<Rightarrow> None
         | Some (s, r) \<Rightarrow> map_option (Cons (TString s)) (tokenize r))
      else if c = CHR ''-'' \<or> is_digit c then
        (case lex_number (c # cs) of
           None \<Rightarrow> None
         | Some (q, r) \<Rightarrow> map_option (Cons (TNumber q)) (tokenize r))
      else if take 4 (c # cs) = ''true'' then map_option (Cons TTrue) (tokenize (drop 3 cs))
      else if take 5 (c # cs) = ''false'' then map_option (Cons TFalse) (tokenize (drop 4 cs))
      else if take 4 (c # cs) = ''null'' then map_option (Cons TNull) (tokenize (drop 3 cs))
      else None)"
  by pat_completeness auto

text \<open>
  The parser is structurally recursive on a fuel. A parse consumes at least as many
  tokens as the fuel it needs, so the fuel that \<open>JSON_parse\<close> gives, the number of
  tokens plus one, loses no parse (\<open>parse_value_fuel\<close>, \<open>JSON_parse_fuel\<close>).
\<close>

fun parse_value :: "nat \<Rightarrow> token list \<Rightarrow> (json \<times> token list) option"
  and parse_elements :: "nat \<Rightarrow> json list \<Rightarrow> token list \<Rightarrow> (json \<times> token list) option"
  and parse_members :: "nat \<Rightarrow> (string \<times> json) list \<Rightarrow> token list \<Rightarrow> (json \<times> token list) option"
where
  "parse_value 0 ts = None"
| "parse_value (Suc n) [] = None"
| "parse_value (Suc n) (t # ts) =
     (case t of
        TNull \<Rightarrow> Some (JNull, ts)
      | TTrue \<Rightarrow> Some (JBool True, ts)
      | TFalse \<Rightarrow> Some (JBool False, ts)
      | TNumber q \<Rightarrow> Some (JNumber q, ts)
      | TString s \<Rightarrow> Some (JString s, ts)
      | TLBracket \<Rightarrow>
          (case ts of
             TRBracket # r \<Rightarrow> Some (JArray [], r)
           | _ \<Rightarrow> parse_elements n [] ts)
      | TLBrace \<Rightarrow>
          (case ts of
             TRBrace # r \<Rightarrow> Some (JObject [], r)
           | _ \<Rightarrow> parse_members n [] ts)
      | _ \<Rightarrow> None)"
| "parse_elements 0 acc ts = None"
| "parse_elements (Suc n) acc ts =
     (case parse_value n ts of
        None \<Rightarrow> None
      | Some (v, r) \<Rightarrow>
          (case r of
             TComma # r' \<Rightarrow> parse_elements n (v # acc) r'
           | TRBracket # r' \<Rightarrow> Some (JArray (rev (v # acc)), r')
           | _ \<Rightarrow> None))"
| "parse_members 0 acc ts = None"
| "parse_members (Suc n) acc ts =
     (case ts of
        TString k # TColon # r \<Rightarrow>
          (case parse_value n r of
             None \<Rightarrow> None
           | Some (v, r') \<Rightarrow>
               (case r' of
                  TComma # r'' \<Rightarrow> parse_members n ((k, v) # acc) r''
                | TRBrace # r'' \<Rightarrow> Some (JObject (rev ((k, v) # acc)), r'')
                | _ \<Rightarrow> None))
      | _ \<Rightarrow> None)"

definition JSON_parse :: "string \<Rightarrow> json option" where
  "JSON_parse text =
     (case tokenize text of
        None \<Rightarrow> None
      | Some ts \<Rightarrow>
          (case parse_value (Suc (length ts)) ts of
             Some (v, []) \<Rightarrow> Some v
           | _ \<Rightarrow> None))"

section \<open>JavaScript values and \<open>JSON.stringify\<close>\<close>

text \<open>
  A property read \<open>message.k\<close>: on \<open>null\<close> it throws a \<open>TypeError\<close>; on an object it
  is the own property (the last of duplicate keys), \<open>undefined\<close> (\<open>None\<close>) when
  absent; on a number, a string, a boolean or an array the names read here (\<open>type\<close>,
  \<open>encrypted\<close>, \<open>payload\<close>) are \<open>undefined\<close>.
\<close>

definition get_prop :: "json \<Rightarrow> string \<Rightarrow> js_error + json option" where
  "get_prop v k =
     (case v of
        JNull \<Rightarrow> Inl TypeError
      | JObject fs \<Rightarrow> Inr (map_of (rev fs) k)
      | _ \<Rightarrow> Inr None)"

text \<open>
  Truthiness. A number literal is falsy when it becomes zero as a double, that is
  when its absolute value is at most \<open>2 ^ -1075\<close>.
\<close>

definition truthy :: "json option \<Rightarrow> bool" where
  "truthy v =
     (case v of
        None \<Rightarrow> False
      | Some JNull \<Rightarrow> False
      | Some (JBool b) \<Rightarrow> b
      | Some (JNumber q) \<Rightarrow> 1 / 2 ^ 1075 < \<bar>q\<bar>
      | Some (JString s) \<Rightarrow> s \<noteq> []
      | Some (JArray xs) \<Rightarrow> True
      | Some (JObject fs) \<Rightarrow> True)"

text \<open>
  \<open>Buffer.from(v, 'hex')\<close>: a string of ASCII characters is hex-decoded, a string
  with any other character goes through the library's decoder on code units, a
  number or a boolean is a \<open>TypeError\<close>, an array or an object goes through the
  library's conversion.
\<close>

definition is_ascii :: "string \<Rightarrow> bool" where
  "is_ascii s \<longleftrightarrow> list_all (\<lambda>c. (of_char c :: nat) < 128) s"

definition Buffer_from :: "'a node_env_scheme \<Rightarrow> json \<Rightarrow> js_error + buffer" where
  "Buffer_from env v =
     (case v of
        JString s \<Rightarrow> Inr (if is_ascii s then hex_decode s else Buffer_from_wide env s)
      | JNumber q \<Rightarrow> Inl TypeError
      | JBool b \<Rightarrow> Inl TypeError
      | JNull \<Rightarrow> Inl TypeError
      | _ \<Rightarrow> Buffer_from_object env v)"

text \<open>
  The objects the server serializes have string and integer fields only, and their
  strings (fixed words and hex digits) need no escaping.
\<close>

datatype field = Str string | Num int

type_synonym js_object = "(string \<times> field) list"

function show_nat :: "nat \<Rightarrow> string" where
  "show_nat n =
     (if n < 10 then [''0123456789'' ! n]
      else show_nat (n div 10) @ [''0123456789'' ! (n mod 10)])"
  by pat_completeness auto
termination
  by (relation "measure id") auto

declare show_nat.simps [simp del]

definition show_int :: "int \<Rightarrow> string" where
  "show_int i = (if i < 0 then CHR ''-'' # show_nat (nat (- i)) else show_nat (nat i))"

definition stringify_field :: "field \<Rightarrow> string" where
  "stringify_field f = (case f of Str s \<Rightarrow> [CHR 0x22] @ s @ [CHR 0x22] | Num i \<Rightarrow> show_int i)"

fun join_comma :: "string list \<Rightarrow> string" where
  "join_comma [] = []"
| "join_comma [x] = x"
| "join_comma (x # y # zs) = x @ '','' @ join_comma (y # zs)"

definition JSON_stringify :: "js_object \<Rightarrow> string" where
  "JSON_stringify obj =
     ''{'' @ join_comma (map (\<lambda>(k, v). [CHR 0x22] @ k @ [CHR 0x22] @ '':'' @ stringify_field v) obj) @ ''}''"

section \<open>The server\<close>

text \<open>
  A socket is an object of Node's: the server reads its remote address, writes to it
  and destroys it. \<open>written\<close> lists the chunks passed to \<open>socket.write\<close>, in order;
  \<open>destroy_calls\<close> counts the calls of \<open>socket.destroy()\<close>.
\<close>

record net_socket =
  remoteAddress :: string
  remotePort :: nat
  written :: "string list"
  destroyed :: bool
  destroy_calls :: nat

definition socket_write :: "string \<Rightarrow> net_socket \<Rightarrow> net_socket" where
  "socket_write chunk sk = sk\<lparr>written := written sk @ [chunk]\<rparr>"

definition socket_destroy :: "net_socket \<Rightarrow> net_socket" where
  "socket_destroy sk = sk\<lparr>destroyed := True, destroy_calls := destroy_calls sk + 1\<rparr>"

text \<open>\<open>clientInfo\<close>; its field \<open>id\<close> is \<open>client_id\<close> here, and \<open>socket\<close> is the socket's address.\<close>

record clientInfo =
  client_id :: nat
  socket :: nat
  address :: string
  port :: nat
  connected :: bool
  bytesReceived :: nat
  bytesSent :: nat

text \<open>
  The server object: \<open>this.clients\<close>, an object keyed by client id, is an
  association list, and \<open>this.clientIdCounter\<close>. \<open>sockets\<close> is the store of the socket
  objects, by address. The counters are JavaScript numbers, exact on the integers
  below \<open>2 ^ 53\<close>; they are natural numbers here.
\<close>

record VPNServer =
  clients :: "(nat \<times> clientInfo) list"
  clientIdCounter :: nat
  sockets :: "nat \<Rightarrow> net_socket"

definition VPNServer_new :: "(nat \<Rightarrow> net_socket) \<Rightarrow> VPNServer" where
  "VPNServer_new store = \<lparr>clients = [], clientIdCounter = 0, sockets = store\<rparr>"

text \<open>\<open>Object.keys\<close> of an object with integer keys: each key once, in ascending order.\<close>

definition Object_keys :: "(nat \<times> 'v) list \<Rightarrow> nat list" where
  "Object_keys obj = sort (remdups (map fst obj))"

text \<open>
  \<open>handleConnection\<close>: the result's first component is the \<open>clientId\<close> that the
  socket's \<open>data\<close>, \<open>end\<close> and \<open>error\<close> handlers close over.
\<close>

definition handleConnection :: "'a node_env_scheme \<Rightarrow> VPNServer \<Rightarrow> nat \<Rightarrow> nat \<times> VPNServer" where
  "handleConnection env self sock =
     (let clientId = clientIdCounter self + 1;
          clientInfo = \<lparr>client_id = clientId, socket = sock,
                        address = remoteAddress (sockets self sock),
                        port = remotePort (sockets self sock),
                        connected = True, bytesReceived = 0, bytesSent = 0\<rparr>;
          welcomeMessage = JSON_stringify
            [(''type'', Str ''welcome''),
             (''clientId'', Num (int clientId)),
             (''message'', Str ''Connected to VPN Server''),
             (''encryptionKey'', Str (hex_encode (ENCRYPTION_KEY env))),
             (''encryptionIV'', Str (hex_encode (ENCRYPTION_IV env)))]
      in (clientId,
          self\<lparr>clientIdCounter := clientId,
               clients := AList.update clientId clientInfo (clients self),
               sockets := (sockets self)
                 (sock := socket_write (welcomeMessage @ ''\<newline>'') (sockets self sock))\<rparr>))"

definition sendToClient :: "VPNServer \<Rightarrow> nat \<Rightarrow> js_object \<Rightarrow> VPNServer" where
  "sendToClient self clientId data =
     (case map_of (clients self) clientId of
        None \<Rightarrow> self
      | Some client \<Rightarrow>
          if connected client then
            (let message = JSON_stringify data @ ''\<newline>''
             in self\<lparr>sockets := (sockets self)
                       (socket client := socket_write message (sockets self (socket client))),
                     clients := AList.update clientId
                       (client\<lparr>bytesSent := bytesSent client + length message\<rparr>) (clients self)\<rparr>)
          else self)"

definition broadcastToOthers :: "VPNServer \<Rightarrow> nat \<Rightarrow> js_object \<Rightarrow> VPNServer" where
  "broadcastToOthers self senderId data =
     fold (\<lambda>clientId s. if clientId \<noteq> senderId then sendToClient s clientId data else s)
       (Object_keys (clients self)) self"

text \<open>
  \<open>handleClientData\<close>. \<open>now\<close> is what \<open>Date.now()\<close> returns during the call. Every
  exception of the \<open>try\<close> block (\<open>JSON.parse\<close>, a property of \<open>null\<close>, \<open>Buffer.from\<close>)
  is thrown before anything is sent, and the \<open>catch\<close> only logs: those branches end
  in the state that has counted the bytes.
\<close>

definition handleClientData ::
  "'a node_env_scheme \<Rightarrow> VPNServer \<Rightarrow> nat \<Rightarrow> string \<Rightarrow> int \<Rightarrow> VPNServer" where
  "handleClientData env self clientId data now =
     (case map_of (clients self) clientId of
        None \<Rightarrow> self
      | Some client \<Rightarrow>
          let counted = self\<lparr>clients := AList.update clientId
                          (client\<lparr>bytesReceived := bytesReceived client + length data\<rparr>)
                          (clients self)\<rparr>
          in
          (case JSON_parse data of
             None \<Rightarrow> counted
           | Some message \<Rightarrow>
               (case (get_prop message ''type'', get_prop message ''encrypted'',
                      get_prop message ''payload'') of
                  (Inr type, Inr encrypted, Inr payload) \<Rightarrow>
                    if type = Some (JString ''ping'') then
                      sendToClient counted clientId
                        [(''type'', Str ''pong''), (''timestamp'', Num now)]
                    else if type = Some (JString ''data'') then
                      (if truthy encrypted \<and> truthy payload then
                         (case Buffer_from env (the payload) of
                            Inl e \<Rightarrow> counted
                          | Inr encryptedBuffer \<Rightarrow>
                              (case decrypt env encryptedBuffer of
                                 None \<Rightarrow> counted
                               | Some decrypted \<Rightarrow>
                                   broadcastToOthers counted clientId
                                     [(''type'', Str ''relay''),
                                      (''fromClient'', Num (int clientId)),
                                      (''data'', Str (hex_encode decrypted))]))
                       else counted)
                    else if type = Some (JString ''tunnel'') then
                      sendToClient counted clientId
                        [(''type'', Str ''tunnel_established''), (''status'', Str ''ready'')]
                    else counted
                | _ \<Rightarrow> counted)))"

definition removeClient :: "VPNServer \<Rightarrow> nat \<Rightarrow> VPNServer" where
  "removeClient self clientId =
     (case map_of (clients self) clientId of
        None \<Rightarrow> self
      | Some client \<Rightarrow>
          let sk = sockets self (socket client);
              store = (if \<not> destroyed sk then (sockets self)(socket client := socket_destroy sk)
                       else sockets self)
          in self\<lparr>sockets := store,
                  clients := AList.delete clientId
                    (AList.update clientId (client\<lparr>connected := False\<rparr>) (clients self))\<rparr>)"

record 'u stats =
  connectedClients :: nat
  totalBytesReceived :: nat
  totalBytesSent :: nat
  uptime :: 'u

text \<open>
  \<open>getStats\<close>; \<open>up\<close> is what \<open>process.uptime()\<close> returns. The function returns the
  snapshot only: it writes to nothing of the server.
\<close>

definition getStats :: "VPNServer \<Rightarrow> 'u \<Rightarrow> 'u stats" where
  "getStats self up =
     (let totalClients = length (Object_keys (clients self));
          totals = fold (\<lambda>clientId (rx, tx).
                      case map_of (clients self) clientId of
                        None \<Rightarrow> (rx, tx)
                      | Some client \<Rightarrow> (rx + bytesReceived client, tx + bytesSent client))
                    (Object_keys (clients self)) (0, 0)
      in \<lparr>connectedClients = totalClients,
          totalBytesReceived = fst totals,
          totalBytesSent = snd totals,
          uptime = up\<rparr>)"

text \<open>
  The events of a server's life: a connection accepted on a socket, and the \<open>data\<close>,
  \<open>end\<close> and \<open>error\<close> events of a socket, which carry the client id of their handler.
  \<open>run\<close> handles a sequence of events and lists the client ids assigned on the way.
\<close>

datatype event =
    Connection nat
  | SocketData nat string int
  | SocketEnd nat
  | SocketError nat

fun run :: "'a node_env_scheme \<Rightarrow> VPNServer \<Rightarrow> event list \<Rightarrow> nat list \<times> VPNServer" where
  "run env self [] = ([], self)"
| "run env self (Connection sock # evs) =
     (let (clientId, self') = handleConnection env self sock;
          (ids, self'') = run env self' evs
      in (clientId # ids, self''))"
| "run env self (SocketData clientId data now # evs) =
     run env (handleClientData env self clientId data now) evs"
| "run env self (SocketEnd clientId # evs) = run env (removeClient self clientId) evs"
| "run env self (SocketError clientId # evs) = run env (removeClient self clientId) evs"

text \<open>The number of connections accepted in a sequence of events.\<close>

definition connections :: "event list \<Rightarrow> nat" where
  "connections evs = length (filter (\<lambda>e. case e of Connection sock \<Rightarrow> True | _ \<Rightarrow> False) evs)"

section \<open>The listener's \<open>error\<close> handler\<close>

text \<open>
  The handler that \<open>start\<close> registers on the listening server: what it does is a list
  of effects. \<open>process.exit\<close> is an effect of the program (its signal handlers call
  it), hence a constructor.
\<close>

record server_error =
  error_message :: string
  error_code :: "string option"

datatype effect = ConsoleLog string | ConsoleError string | ProcessExit int

definition server_on_error :: "nat \<Rightarrow> server_error \<Rightarrow> effect list" where
  "server_on_error listen_port err =
     ConsoleError (''[VPN Server] Server error: '' @ error_message err) #
     (if error_code err = Some ''EADDRINUSE''
      then [ConsoleError (''Port '' @ show_nat listen_port @ '' is already in use'')]
      else [])"

section \<open>Well-formed registries\<close>

text \<open>
  What holds of the registry in every state the server reaches, when each accepted
  connection comes with a socket object of its own (\<open>registry_ok_run\<close> below): the
  keys are distinct and none is above the counter, no two sessions share a socket,
  and every session in the registry has \<open>connected\<close> set (it is cleared only on
  removal).
\<close>

definition registry_ok :: "VPNServer \<Rightarrow> bool" where
  "registry_ok self \<longleftrightarrow>
     distinct (map fst (clients self)) \<and>
     distinct (map (\<lambda>p. socket (snd p)) (clients self)) \<and>
     list_all (\<lambda>p. connected (snd p)) (clients self) \<and>
     list_all (\<lambda>p. fst p \<le> clientIdCounter self) (clients self)"

text \<open>\<open>sendToClient\<close> to this client id writes to the socket at this address.\<close>

definition delivers :: "VPNServer \<Rightarrow> nat \<Rightarrow> nat \<Rightarrow> bool" where
  "delivers self clientId h =
     (case map_of (clients self) clientId of
        None \<Rightarrow> False
      | Some client \<Rightarrow> connected client \<and> socket client = h)"

text \<open>The sockets on which a sequence of events accepts connections.\<close>

fun accepted_sockets :: "event list \<Rightarrow> nat list" where
  "accepted_sockets [] = []"
| "accepted_sockets (Connection sock # evs) = sock # accepted_sockets evs"
| "accepted_sockets (ev # evs) = accepted_sockets evs"

section \<open>Example inputs\<close>

text \<open>
  A stand-in for AES in the examples: reversing a block is a permutation of the
  16-byte blocks that is its own inverse. The key is 32 bytes, the IV 16 bytes. The
  examples send ASCII strings and no arrays, so the two conversions of the library
  are not reached.
\<close>

definition example_env :: node_env where
  "example_env =
     \<lparr>ENCRYPTION_KEY = replicate 32 7, ENCRYPTION_IV = replicate 16 1,
      aes_encrypt_block = (\<lambda>k b. rev b), aes_decrypt_block = (\<lambda>k b. rev b),
      Buffer_from_object = (\<lambda>v. Inl TypeError), Buffer_from_wide = (\<lambda>s. [])\<rparr>"

definition example_sockets :: "nat \<Rightarrow> net_socket" where
  "example_sockets a =
     \<lparr>remoteAddress = ''10.0.0.1'', remotePort = 5000 + a, written = [],
      destroyed = False, destroy_calls = 0\<rparr>"

text \<open>A server that has accepted two connections, on the sockets 1 and 2.\<close>

definition two_clients :: VPNServer where
  "two_clients = snd (run example_env (VPNServer_new example_sockets) [Connection 1, Connection 2])"

text \<open>The error of a listener whose port is taken.\<close>

definition address_in_use :: server_error where
  "address_in_use =
     \<lparr>error_message = ''listen EADDRINUSE: address already in use 0.0.0.0:8888'',
      error_code = Some ''EADDRINUSE''\<rparr>"


text \<open>A server that has accepted three connections, on the sockets 1, 2 and 3.\<close>

definition three_clients :: VPNServer where
  "three_clients =
     snd (run example_env (VPNServer_new example_sockets) [Connection 1, Connection 2, Connection 3])"

text \<open>
  Chunks a client may send: a ping as one line; the same line cut in two; a data
  message that is not marked encrypted; one whose payload is a block with bad padding
  under \<open>example_env\<close>; and one whose payload is the encryption of the two bytes
  \<open>hi\<close> under \<open>example_env\<close>.
\<close>

definition ping_line :: string where
  "ping_line = ''{\"type\":\"ping\",\"timestamp\":7}\<newline>''"

definition ping_head :: string where
  "ping_head = ''{\"type\":\"pi''"

definition ping_tail :: string where
  "ping_tail = ''ng\",\"timestamp\":7}\<newline>''"

definition plain_data_line :: string where
  "plain_data_line = ''{\"type\":\"data\",\"encrypted\":false,\"payload\":\"00\"}\<newline>''"

definition corrupt_data_line :: string where
  "corrupt_data_line =
     ''{\"type\":\"data\",\"encrypted\":true,\"payload\":\"01010101010101010101010101010101\"}\<newline>''"

definition hi_data_line :: string where
  "hi_data_line =
     ''{\"type\":\"data\",\"encrypted\":true,\"payload\":\"0f0f0f0f0f0f0f0f0f0f0f0f0f0f6869\"}\<newline>''"

section \<open>The tokenizer terminates\<close>

text \<open>Each lexer returns a rest that is shorter than its input.\<close>

lemma lex_string_shorter: "lex_string acc cs = Some (s, r) \<Longrightarrow> length r < length cs"
proof (induction cs arbitrary: acc rule: length_induct)
  case (1 cs)
  have IH: "\<And>ys a. length ys < length cs \<Longrightarrow> lex_string a ys = Some (s, r) \<Longrightarrow> length r < length ys"
    using 1(1) by blast
  show ?case
  proof (cases cs)
    case Nil
    with 1(2) show ?thesis by simp
  next
    case (Cons c cs1)
    note cs = Cons
    consider (dq) "c = CHR 0x22" | (bsl) "c \<noteq> CHR 0x22" "c = CHR 0x5C"
      | (other) "c \<noteq> CHR 0x22" "c \<noteq> CHR 0x5C"
      by blast
    then show ?thesis
    proof cases
      case dq
      with 1(2) cs show ?thesis by simp
    next
      case other
      with 1(2) cs have "lex_string (c # acc) cs1 = Some (s, r)"
        by (simp split: if_splits)
      with IH [of cs1] cs have "length r < length cs1" by simp
      with cs show ?thesis by simp
    next
      case bsl
      show ?thesis
      proof (cases cs1)
        case Nil
        with 1(2) cs bsl show ?thesis by simp
      next
        case (Cons e cs2)
        note cs1 = Cons
        show ?thesis
        proof (cases "e = CHR ''u''")
          case False
          with 1(2) cs cs1 bsl obtain x where "lex_string (x # acc) cs2 = Some (s, r)"
            by (auto split: option.splits)
          with IH [of cs2] cs cs1 have "length r < length cs2" by simp
          with cs cs1 show ?thesis by simp
        next
          case True
          with 1(2) cs cs1 bsl obtain h1 h2 h3 h4 cs3 n where
            cs2: "cs2 = h1 # h2 # h3 # h4 # cs3"
            and l: "lex_string (rev (utf8_unit n) @ acc) cs3 = Some (s, r)"
            by (auto split: list.splits option.splits)
          from IH [of cs3] cs cs1 cs2 l have "length r < length cs3" by simp
          with cs cs1 cs2 show ?thesis by simp
        qed
      qed
    qed
  qed
qed

lemma lex_digits_shorter: "lex_digits cs = Some (ds, r) \<Longrightarrow> length r < length cs"
proof -
  assume a: "lex_digits cs = Some (ds, r)"
  then have ne: "takeWhile is_digit cs \<noteq> []" and r: "r = dropWhile is_digit cs"
    by (auto simp: lex_digits_def split: if_splits)
  have "length (takeWhile is_digit cs) + length (dropWhile is_digit cs) = length cs"
    by (metis length_append takeWhile_dropWhile_id)
  moreover from ne have "0 < length (takeWhile is_digit cs)" by simp
  ultimately have "length (dropWhile is_digit cs) < length cs" by linarith
  then show ?thesis using r by simp
qed

lemma lex_frac_shorter: "lex_frac cs = Some (f, r) \<Longrightarrow> length r \<le> length cs"
  by (cases cs) (auto simp: lex_frac_def split: if_splits option.splits dest: lex_digits_shorter)

lemma lex_exp_digits_shorter: "lex_exp_digits b cs = Some (e, r) \<Longrightarrow> length r < length cs"
  by (auto simp: lex_exp_digits_def split: option.splits dest: lex_digits_shorter)

lemma lex_exp_shorter: "lex_exp cs = Some (e, r) \<Longrightarrow> length r \<le> length cs"
proof (cases cs)
  case Nil
  assume "lex_exp cs = Some (e, r)"
  with Nil show ?thesis by (simp add: lex_exp_def)
next
  case (Cons c cs')
  assume a: "lex_exp cs = Some (e, r)"
  show ?thesis
  proof (cases cs')
    case Nil
    with a Cons show ?thesis by (auto simp: lex_exp_def split: if_splits)
  next
    case (Cons s cs'')
    with a \<open>cs = c # cs'\<close> show ?thesis
      by (auto simp: lex_exp_def split: if_splits dest!: lex_exp_digits_shorter)
  qed
qed

lemma lex_unsigned_shorter: "lex_unsigned cs = Some (q, r) \<Longrightarrow> length r < length cs"
proof -
  assume "lex_unsigned cs = Some (q, r)"
  then obtain ds r1 f r2 e where d: "lex_digits cs = Some (ds, r1)"
    and f: "lex_frac r1 = Some (f, r2)" and e: "lex_exp r2 = Some (e, r)"
    by (auto simp: lex_unsigned_def split: option.splits if_splits)
  show ?thesis
    using lex_digits_shorter [OF d] lex_frac_shorter [OF f] lex_exp_shorter [OF e]
    by linarith
qed

lemma lex_number_shorter: "lex_number cs = Some (q, r) \<Longrightarrow> length r < length cs"
  by (cases cs) (auto simp: lex_number_def split: if_splits dest!: lex_unsigned_shorter)

termination tokenize
proof (relation "measure length")
  show "wf (measure length)" by simp
next
  fix c cs x2 x y
  assume "lex_string [] cs = Some x2" "(x, y) = x2"
  then show "(y, c # cs) \<in> measure length"
    using lex_string_shorter [of "[]" cs x y] by simp
next
  fix c cs x2 x y
  assume "lex_number (c # cs) = Some x2" "(x, y) = x2"
  then show "(y, c # cs) \<in> measure length"
    using lex_number_shorter [of "c # cs" x y] by simp
qed simp_all

declare tokenize.simps [simp del]

section \<open>The parser's fuel\<close>

text \<open>
  A parse that succeeds with some fuel consumes at least one token and succeeds, with
  the same result, with any fuel that is at least the number of tokens it consumes.
  So the fuel \<open>Suc (length ts)\<close> of \<open>JSON_parse\<close> misses no parse.
\<close>

lemma parse_fuel_all:
  "(\<forall>ts v r. parse_value m ts = Some (v, r) \<longrightarrow>
      length r < length ts \<and> (\<forall>n. length ts - length r \<le> n \<longrightarrow> parse_value n ts = Some (v, r)))
   \<and> (\<forall>acc ts v r. parse_elements m acc ts = Some (v, r) \<longrightarrow>
      length r < length ts \<and> (\<forall>n. length ts - length r \<le> n \<longrightarrow> parse_elements n acc ts = Some (v, r)))
   \<and> (\<forall>acc ts v r. parse_members m acc ts = Some (v, r) \<longrightarrow>
      length r < length ts \<and> (\<forall>n. length ts - length r \<le> n \<longrightarrow> parse_members n acc ts = Some (v, r)))"
proof (induction m)
  case 0
  show ?case by simp
next
  case (Suc m)
  then have IHv: "\<And>ts v r n. parse_value m ts = Some (v, r) \<Longrightarrow> length r < length ts"
    and IHv': "\<And>ts v r n. parse_value m ts = Some (v, r) \<Longrightarrow> length ts - length r \<le> n
        \<Longrightarrow> parse_value n ts = Some (v, r)"
    and IHe: "\<And>acc ts v r. parse_elements m acc ts = Some (v, r) \<Longrightarrow> length r < length ts"
    and IHe': "\<And>acc ts v r n. parse_elements m acc ts = Some (v, r) \<Longrightarrow> length ts - length r \<le> n
        \<Longrightarrow> parse_elements n acc ts = Some (v, r)"
    and IHm: "\<And>acc ts v r. parse_members m acc ts = Some (v, r) \<Longrightarrow> length r < length ts"
    and IHm': "\<And>acc ts v r n. parse_members m acc ts = Some (v, r) \<Longrightarrow> length ts - length r \<le> n
        \<Longrightarrow> parse_members n acc ts = Some (v, r)"
    by blast+
  have V: "length r < length ts \<and> (\<forall>n. length ts - length r \<le> n \<longrightarrow> parse_value n ts = Some (v, r))"
    if p: "parse_value (Suc m) ts = Some (v, r)" for ts v r
  proof (cases ts)
    case Nil
    with p show ?thesis by simp
  next
    case (Cons t ts')
    have fuel: "\<exists>k. n = Suc k \<and> length ts' - length r \<le> k"
      if "length ts - length r \<le> n" "length r \<le> length ts'" for n
      using that Cons by (cases n) auto
    show ?thesis
    proof (cases t)
      case TLBracket
      show ?thesis
      proof (cases "\<exists>r'. ts' = TRBracket # r'")
        case True
        then obtain r' where r': "ts' = TRBracket # r'" by blast
        with p Cons TLBracket have "v = JArray []" "r = r'" by simp_all
        with Cons TLBracket r' show ?thesis
          by (auto dest!: fuel simp: Suc_le_eq) (case_tac n, simp_all)
      next
        case False
        with p Cons TLBracket have e: "parse_elements m [] ts' = Some (v, r)"
          by (auto split: list.splits token.splits)
        have l: "length r < length ts'" using IHe [OF e] .
        have "parse_value n ts = Some (v, r)" if n: "length ts - length r \<le> n" for n
        proof -
          from fuel [OF n] l obtain k where k: "n = Suc k" "length ts' - length r \<le> k" by auto
          from IHe' [OF e k(2)] False Cons TLBracket k(1) show ?thesis
            by (auto split: list.splits token.splits)
        qed
        with l Cons show ?thesis by simp
      qed
    next
      case TLBrace
      show ?thesis
      proof (cases "\<exists>r'. ts' = TRBrace # r'")
        case True
        then obtain r' where r': "ts' = TRBrace # r'" by blast
        with p Cons TLBrace have "v = JObject []" "r = r'" by simp_all
        with Cons TLBrace r' show ?thesis
          by (auto dest!: fuel simp: Suc_le_eq) (case_tac n, simp_all)
      next
        case False
        with p Cons TLBrace have e: "parse_members m [] ts' = Some (v, r)"
          by (auto split: list.splits token.splits)
        have l: "length r < length ts'" using IHm [OF e] .
        have "parse_value n ts = Some (v, r)" if n: "length ts - length r \<le> n" for n
        proof -
          from fuel [OF n] l obtain k where k: "n = Suc k" "length ts' - length r \<le> k" by auto
          from IHm' [OF e k(2)] False Cons TLBrace k(1) show ?thesis
            by (auto split: list.splits token.splits)
        qed
        with l Cons show ?thesis by simp
      qed
    qed (use p Cons in \<open>auto, (case_tac n, simp_all)+\<close>)
  qed
  have E: "length r < length ts \<and> (\<forall>n. length ts - length r \<le> n \<longrightarrow> parse_elements n acc ts = Some (v, r))"
    if p: "parse_elements (Suc m) acc ts = Some (v, r)" for acc ts v r
  proof -
    from p obtain x rx where x: "parse_value m ts = Some (x, rx)"
      by (auto split: option.splits)
    have lx: "length rx < length ts" using IHv [OF x] .
    from p x consider
      (comma) r' where "rx = TComma # r'" "parse_elements m (x # acc) r' = Some (v, r)"
      | (close) "rx = TRBracket # r" "v = JArray (rev (x # acc))"
      by (auto split: list.splits token.splits)
    then show ?thesis
    proof cases
      case comma
      have lr: "length r < length r'" using IHe [OF comma(2)] .
      have "parse_elements n acc ts = Some (v, r)" if n: "length ts - length r \<le> n" for n
      proof -
        from n lx lr comma(1) obtain k where k: "n = Suc k" "length ts - length rx \<le> k"
          "length r' - length r \<le> k"
          by (cases n) auto
        from IHv' [OF x k(2)] IHe' [OF comma(2) k(3)] comma(1) k(1) show ?thesis by simp
      qed
      with lx lr comma(1) show ?thesis by simp
    next
      case close
      have "parse_elements n acc ts = Some (v, r)" if n: "length ts - length r \<le> n" for n
      proof -
        from n lx close(1) obtain k where k: "n = Suc k" "length ts - length rx \<le> k"
          by (cases n) auto
        from IHv' [OF x k(2)] close k(1) show ?thesis by simp
      qed
      with lx close(1) show ?thesis by simp
    qed
  qed
  have M: "length r < length ts \<and> (\<forall>n. length ts - length r \<le> n \<longrightarrow> parse_members n acc ts = Some (v, r))"
    if p: "parse_members (Suc m) acc ts = Some (v, r)" for acc ts v r
  proof -
    from p obtain k0 ts' where ts: "ts = TString k0 # TColon # ts'"
      by (auto split: list.splits token.splits)
    with p obtain x rx where x: "parse_value m ts' = Some (x, rx)"
      by (auto split: option.splits)
    have lx: "length rx < length ts'" using IHv [OF x] .
    from p ts x consider
      (comma) r' where "rx = TComma # r'" "parse_members m ((k0, x) # acc) r' = Some (v, r)"
      | (close) "rx = TRBrace # r" "v = JObject (rev ((k0, x) # acc))"
      by (auto split: list.splits token.splits)
    then show ?thesis
    proof cases
      case comma
      have lr: "length r < length r'" using IHm [OF comma(2)] .
      have "parse_members n acc ts = Some (v, r)" if n: "length ts - length r \<le> n" for n
      proof -
        from n lx lr comma(1) ts obtain k where k: "n = Suc k" "length ts' - length rx \<le> k"
          "length r' - length r \<le> k"
          by (cases n) auto
        from IHv' [OF x k(2)] IHm' [OF comma(2) k(3)] comma(1) k(1) ts show ?thesis by simp
      qed
      with lx lr comma(1) ts show ?thesis by simp
    next
      case close
      have "parse_members n acc ts = Some (v, r)" if n: "length ts - length r \<le> n" for n
      proof -
        from n lx close(1) ts obtain k where k: "n = Suc k" "length ts' - length rx \<le> k"
          by (cases n) auto
        from IHv' [OF x k(2)] close k(1) ts show ?thesis by simp
      qed
      with lx close(1) ts show ?thesis by simp
    qed
  qed
  show ?case using V E M by blast
qed

lemma parse_value_fuel:
  "parse_value m ts = Some (v, r) \<Longrightarrow> parse_value (Suc (length ts)) ts = Some (v, r)"
proof -
  assume p: "parse_value m ts = Some (v, r)"
  with parse_fuel_all [of m]
  have "\<forall>n. length ts - length r \<le> n \<longrightarrow> parse_value n ts = Some (v, r)" by blast
  then show ?thesis by simp
qed

lemma JSON_parse_fuel:
  "tokenize text = Some ts \<Longrightarrow> parse_value m ts = Some (v, []) \<Longrightarrow> JSON_parse text = Some v"
  by (simp add: JSON_parse_def parse_value_fuel)

section \<open>Encryption and decryption\<close>

lemma concat_blocks: "concat (blocks xs) = xs"
proof (induction xs rule: blocks.induct)
  case 1
  show ?case by simp
next
  case (2 x xs)
  have "take 16 (x # xs) @ drop 15 xs = x # xs"
    using append_take_drop_id [of 16 "x # xs"] by simp
  with 2 show ?case by simp
qed

lemma blocks_length:
  "length xs mod 16 = 0 \<Longrightarrow> b \<in> set (blocks xs) \<Longrightarrow> length b = 16"
proof (induction xs rule: blocks.induct)
  case 1
  then show ?case by simp
next
  case (2 x xs)
  from 2(2) have len: "16 \<le> length (x # xs)"
    by (cases "length (x # xs) < 16") auto
  from 2(2) len have "(length (x # xs) - 16) mod 16 = 0"
    by presburger
  then have m: "length (drop 15 xs) mod 16 = 0"
    by simp
  from 2(3) have "b = take 16 (x # xs) \<or> b \<in> set (blocks (drop 15 xs))"
    by simp
  then show ?case
  proof
    assume "b = take 16 (x # xs)"
    with len show ?thesis by simp
  next
    assume "b \<in> set (blocks (drop 15 xs))"
    with 2(1) m show ?thesis by simp
  qed
qed

lemma blocks_concat:
  "\<forall>b \<in> set bs. length b = 16 \<Longrightarrow> blocks (concat bs) = bs"
proof (induction bs)
  case Nil
  then show ?case by simp
next
  case (Cons b bs)
  then have l: "length b = 16" by simp
  then obtain x xs where b: "b = x # xs" by (cases b) auto
  with l have lx: "length xs = 15" by simp
  from Cons have "blocks (concat bs) = bs" by simp
  with b lx show ?case by simp
qed

lemma xor_block_cancel:
  "length a = length b \<Longrightarrow> xor_block (xor_block a b) b = a"
  unfolding xor_block_def
  by (induction a b rule: list_induct2) (simp_all add: xor.assoc)

lemma length_xor_block: "length (xor_block a b) = min (length a) (length b)"
  by (simp add: xor_block_def)

lemma cbc_roundtrip:
  assumes ED: "\<forall>b. length b = 16 \<longrightarrow> length (E b) = 16 \<and> D (E b) = b"
  shows "length prev = 16 \<Longrightarrow> \<forall>p \<in> set ps. length p = 16 \<Longrightarrow>
     cbc_decrypt_blocks D prev (cbc_encrypt_blocks E prev ps) = ps"
proof (induction ps arbitrary: prev)
  case Nil
  then show ?case by simp
next
  case (Cons p ps)
  have lp: "length p = 16" using Cons.prems by simp
  have lx: "length (xor_block p prev) = 16"
    using lp Cons.prems(1) by (simp add: length_xor_block)
  have lc: "length (E (xor_block p prev)) = 16"
    and dc: "D (E (xor_block p prev)) = xor_block p prev"
    using ED lx by auto
  have "cbc_decrypt_blocks D (E (xor_block p prev))
          (cbc_encrypt_blocks E (E (xor_block p prev)) ps) = ps"
    using Cons.IH [OF lc] Cons.prems(2) by simp
  then show ?case
    using dc lp Cons.prems(1) by (simp add: Let_def xor_block_cancel)
qed

lemma cbc_encrypt_length:
  assumes ED: "\<forall>b. length b = 16 \<longrightarrow> length (E b) = 16 \<and> D (E b) = b"
  shows "length prev = 16 \<Longrightarrow> \<forall>p \<in> set ps. length p = 16 \<Longrightarrow>
     \<forall>c \<in> set (cbc_encrypt_blocks E prev ps). length c = 16"
proof (induction ps arbitrary: prev)
  case Nil
  then show ?case by simp
next
  case (Cons p ps)
  have lx: "length (xor_block p prev) = 16"
    using Cons.prems by (simp add: length_xor_block)
  then have lc: "length (E (xor_block p prev)) = 16" using ED by auto
  show ?case using Cons.IH [OF lc] Cons.prems(2) lc by (simp add: Let_def)
qed

lemma length_cbc_encrypt_blocks: "length (cbc_encrypt_blocks E prev ps) = length ps"
  by (induction ps arbitrary: prev) (simp_all add: Let_def)

lemma length_concat_16:
  "\<forall>c \<in> set cs. length c = 16 \<Longrightarrow> length (concat cs) = 16 * length cs"
  by (induction cs) simp_all

lemma pkcs7_pad_length: "length (pkcs7_pad d) mod 16 = 0"
proof -
  have "(length d + (16 - length d mod 16)) mod 16 = 0"
    by presburger
  then show ?thesis by (simp add: pkcs7_pad_def Let_def)
qed

lemma pkcs7_unpad_pad: "pkcs7_unpad (pkcs7_pad d) = Some d"
proof -
  define n where "n = 16 - length d mod 16"
  have n: "0 < n" "n \<le> 16" by (simp_all add: n_def)
  have u: "unat (of_nat n :: byte) = n"
    using n by (simp add: unat_of_nat)
  have p: "pkcs7_pad d = d @ replicate n (of_nat n)"
    by (simp add: pkcs7_pad_def n_def Let_def)
  have l: "last (d @ replicate n (of_nat n :: byte)) = of_nat n"
    using n by (cases n) (simp_all)
  show ?thesis
    unfolding p pkcs7_unpad_def using n u l by (simp add: Let_def)
qed

text \<open>
  C3. For every byte string \<open>B\<close>, the empty one included, the server's \<open>decrypt\<close> of
  the server's \<open>encrypt\<close> of \<open>B\<close> is \<open>B\<close>, under the one key and IV of the process
  (a 32-byte key, a 16-byte IV, AES a permutation of the blocks).
\<close>

theorem encrypt_decrypt_roundtrip:
  assumes "env_ok env"
  shows "decrypt env (encrypt env B) = Some B"
proof -
  let ?E = "aes_encrypt_block env (ENCRYPTION_KEY env)"
  let ?D = "aes_decrypt_block env (ENCRYPTION_KEY env)"
  let ?ps = "blocks (pkcs7_pad B)"
  let ?cs = "cbc_encrypt_blocks ?E (ENCRYPTION_IV env) ?ps"
  from assms have ED: "\<forall>b. length b = 16 \<longrightarrow> length (?E b) = 16 \<and> ?D (?E b) = b"
    and iv: "length (ENCRYPTION_IV env) = 16"
    by (simp_all add: env_ok_def)
  have ps16: "\<forall>p \<in> set ?ps. length p = 16"
    using blocks_length [OF pkcs7_pad_length] by blast
  have cs16: "\<forall>c \<in> set ?cs. length c = 16"
    using cbc_encrypt_length [OF ED iv ps16] .
  have bl: "blocks (concat ?cs) = ?cs"
    using blocks_concat [OF cs16] .
  have ne: "pkcs7_pad B \<noteq> []"
    by (simp add: pkcs7_pad_def Let_def)
  then have psne: "?ps \<noteq> []"
    by (cases "pkcs7_pad B") simp_all
  then have csne: "?cs \<noteq> []"
    using length_cbc_encrypt_blocks [of ?E "ENCRYPTION_IV env" ?ps] by fastforce
  have cne: "concat ?cs \<noteq> []"
  proof -
    from csne obtain c cs' where c: "?cs = c # cs'" by (cases ?cs) auto
    then have "length c = 16" using cs16 by simp
    then show ?thesis using c by auto
  qed
  have lenc: "length (concat ?cs) mod 16 = 0"
    using length_concat_16 [OF cs16] by simp
  have plain: "cbc_plain env (concat ?cs) = pkcs7_pad B"
    unfolding cbc_plain_def bl
    using cbc_roundtrip [OF ED iv ps16] by (simp add: concat_blocks)
  show ?thesis
    unfolding decrypt_def encrypt_def
    using cne lenc plain by (simp add: pkcs7_unpad_pad)
qed

lemma example_env_ok: "env_ok example_env"
  by (simp add: env_ok_def example_env_def)

theorem encrypt_decrypt_roundtrip_witness:
  "env_ok example_env
   \<and> decrypt example_env (encrypt example_env [0x68, 0x69]) = Some [0x68, 0x69]
   \<and> decrypt example_env (encrypt example_env []) = Some []"
  using encrypt_decrypt_roundtrip [OF example_env_ok, of "[0x68, 0x69]"]
    encrypt_decrypt_roundtrip [OF example_env_ok, of "[]"] example_env_ok
  by simp

section \<open>The registry\<close>

lemma map_of_removeClient: "map_of (clients (removeClient self clientId)) clientId = None"
  by (cases "map_of (clients self) clientId")
    (simp_all add: removeClient_def Let_def delete_conv)

text \<open>
  C8. Removing a client id twice in a row leaves the registry and the sockets as
  removing it once does: the second call finds no entry, so the socket is destroyed
  once (when it was not destroyed before, \<open>destroy()\<close> has been called exactly once
  more); and removing an id that is not in the registry changes nothing.
\<close>

theorem removeClient_idempotent:
  "removeClient (removeClient self clientId) clientId = removeClient self clientId
   \<and> (map_of (clients self) clientId = None \<longrightarrow> removeClient self clientId = self)
   \<and> (\<forall>client. map_of (clients self) clientId = Some client
          \<and> \<not> destroyed (sockets self (socket client)) \<longrightarrow>
        destroyed (sockets (removeClient (removeClient self clientId) clientId) (socket client))
        \<and> destroy_calls (sockets (removeClient (removeClient self clientId) clientId) (socket client))
            = destroy_calls (sockets self (socket client)) + 1)"
proof -
  have twice: "removeClient (removeClient self clientId) clientId = removeClient self clientId"
    using map_of_removeClient [of self clientId]
    by (simp add: removeClient_def [of "removeClient self clientId"])
  have absent: "map_of (clients self) clientId = None \<longrightarrow> removeClient self clientId = self"
    by (simp add: removeClient_def)
  have once: "destroyed (sockets (removeClient self clientId) (socket client))
      \<and> destroy_calls (sockets (removeClient self clientId) (socket client))
          = destroy_calls (sockets self (socket client)) + 1"
    if "map_of (clients self) clientId = Some client"
      and "\<not> destroyed (sockets self (socket client))" for client
    using that by (simp add: removeClient_def Let_def socket_destroy_def)
  show ?thesis
    unfolding twice using absent once by blast
qed

lemma two_clients_registry:
  "clients two_clients =
     [(1, \<lparr>client_id = 1, socket = 1, address = ''10.0.0.1'', port = 5001, connected = True,
           bytesReceived = 0, bytesSent = 0\<rparr>),
      (2, \<lparr>client_id = 2, socket = 2, address = ''10.0.0.1'', port = 5002, connected = True,
           bytesReceived = 0, bytesSent = 0\<rparr>)]"
  by (simp add: two_clients_def VPNServer_new_def handleConnection_def Let_def example_sockets_def)

lemma two_clients_sockets_live:
  "destroyed (sockets two_clients 1) = False \<and> destroy_calls (sockets two_clients 1) = 0"
  by (simp add: two_clients_def VPNServer_new_def handleConnection_def Let_def
      example_sockets_def socket_write_def)

theorem removeClient_idempotent_witness:
  "removeClient (removeClient two_clients 1) 1 = removeClient two_clients 1
   \<and> map_of (clients two_clients) 3 = None \<and> removeClient two_clients 3 = two_clients
   \<and> map_of (clients two_clients) 1 = Some \<lparr>client_id = 1, socket = 1, address = ''10.0.0.1'',
        port = 5001, connected = True, bytesReceived = 0, bytesSent = 0\<rparr>
   \<and> \<not> destroyed (sockets two_clients 1)
   \<and> destroyed (sockets (removeClient (removeClient two_clients 1) 1) 1)
   \<and> destroy_calls (sockets (removeClient (removeClient two_clients 1) 1) 1) = 1"
proof -
  let ?c = "\<lparr>client_id = 1, socket = 1, address = ''10.0.0.1'',
        port = 5001, connected = True, bytesReceived = 0, bytesSent = 0\<rparr>"
  have absent: "map_of (clients two_clients) 3 = None"
    by (simp add: two_clients_registry)
  have present: "map_of (clients two_clients) 1 = Some ?c"
    by (simp add: two_clients_registry)
  from removeClient_idempotent [of two_clients 3] absent
  have a: "removeClient two_clients 3 = two_clients" by blast
  from removeClient_idempotent [of two_clients 1] present two_clients_sockets_live
  have b: "removeClient (removeClient two_clients 1) 1 = removeClient two_clients 1"
    and c: "destroyed (sockets (removeClient (removeClient two_clients 1) 1) 1)
      \<and> destroy_calls (sockets (removeClient (removeClient two_clients 1) 1) 1) = 1"
    by auto
  show ?thesis using a b c absent present two_clients_sockets_live by simp
qed

lemma Object_keys_set: "set (Object_keys obj) = dom (map_of obj)"
  by (simp add: Object_keys_def dom_map_of_conv_image_fst)

lemma Object_keys_distinct: "distinct (Object_keys obj)"
  by (simp add: Object_keys_def)

lemma fold_totals:
  "\<forall>k \<in> set ks. m k \<noteq> None \<Longrightarrow>
   fold (\<lambda>clientId (rx, tx).
          case m clientId of
            None \<Rightarrow> (rx, tx)
          | Some client \<Rightarrow> (rx + bytesReceived client, tx + bytesSent client)) ks (a, b)
   = (a + sum_list (map (\<lambda>k. bytesReceived (the (m k))) ks),
      b + sum_list (map (\<lambda>k. bytesSent (the (m k))) ks))"
  by (induction ks arbitrary: a b) auto

text \<open>
  C9. The stats snapshot: \<open>connectedClients\<close> is the number of sessions in the
  registry, \<open>totalBytesReceived\<close> and \<open>totalBytesSent\<close> are the sums of the sessions'
  counters, and \<open>uptime\<close> is the uptime read. \<open>getStats\<close> returns the snapshot and
  nothing else, so the registry is as before.
\<close>

theorem getStats_snapshot:
  "connectedClients (getStats self up) = card (dom (map_of (clients self)))
   \<and> totalBytesReceived (getStats self up)
       = (\<Sum>k \<in> dom (map_of (clients self)). bytesReceived (the (map_of (clients self) k)))
   \<and> totalBytesSent (getStats self up)
       = (\<Sum>k \<in> dom (map_of (clients self)). bytesSent (the (map_of (clients self) k)))
   \<and> uptime (getStats self up) = up"
proof -
  let ?ks = "Object_keys (clients self)"
  let ?m = "map_of (clients self)"
  have dom: "\<forall>k \<in> set ?ks. ?m k \<noteq> None"
    by (auto simp: Object_keys_set)
  have n: "length ?ks = card (dom ?m)"
    using distinct_card [OF Object_keys_distinct, of "clients self"]
    by (simp add: Object_keys_set)
  have rx: "sum_list (map (\<lambda>k. bytesReceived (the (?m k))) ?ks)
      = (\<Sum>k \<in> dom ?m. bytesReceived (the (?m k)))"
    using sum_list_distinct_conv_sum_set [OF Object_keys_distinct, of "\<lambda>k. bytesReceived (the (?m k))" "clients self"]
    by (simp add: Object_keys_set)
  have tx: "sum_list (map (\<lambda>k. bytesSent (the (?m k))) ?ks)
      = (\<Sum>k \<in> dom ?m. bytesSent (the (?m k)))"
    using sum_list_distinct_conv_sum_set [OF Object_keys_distinct, of "\<lambda>k. bytesSent (the (?m k))" "clients self"]
    by (simp add: Object_keys_set)
  show ?thesis
    unfolding getStats_def Let_def fold_totals [OF dom]
    using n rx tx by simp
qed

section \<open>Client identities\<close>

lemma sendToClient_counter: "clientIdCounter (sendToClient self k data) = clientIdCounter self"
  by (simp add: sendToClient_def Let_def split: option.splits)

lemma broadcastToOthers_counter:
  "clientIdCounter (broadcastToOthers self k data) = clientIdCounter self"
proof -
  have "clientIdCounter (fold (\<lambda>clientId s. if clientId \<noteq> k then sendToClient s clientId data else s) ks s)
      = clientIdCounter s" for ks s
    by (induction ks arbitrary: s) (simp_all add: sendToClient_counter)
  then show ?thesis by (simp add: broadcastToOthers_def)
qed

lemma handleClientData_counter:
  "clientIdCounter (handleClientData env self k data now) = clientIdCounter self"
  by (simp add: handleClientData_def Let_def sendToClient_counter broadcastToOthers_counter
      split: option.splits sum.splits)

lemma removeClient_counter: "clientIdCounter (removeClient self k) = clientIdCounter self"
  by (simp add: removeClient_def Let_def split: option.splits)

lemma run_ids:
  "fst (run env self evs)
   = [Suc (clientIdCounter self) ..< Suc (clientIdCounter self + connections evs)]"
proof (induction env self evs rule: run.induct)
  case (1 env self)
  then show ?case by (simp del: upt_Suc add: connections_def)
next
  case (2 env self sock evs)
  obtain clientId self' where h: "handleConnection env self sock = (clientId, self')"
    by (cases "handleConnection env self sock")
  then have c: "clientId = Suc (clientIdCounter self)" "clientIdCounter self' = Suc (clientIdCounter self)"
    by (auto simp: handleConnection_def Let_def)
  have IH: "fst (run env self' evs)
      = [Suc (clientIdCounter self') ..< Suc (clientIdCounter self' + connections evs)]"
    using 2 [OF h [symmetric] refl] .
  have r: "fst (run env self (Connection sock # evs)) = clientId # fst (run env self' evs)"
    using h by (simp split: prod.splits)
  have n: "connections (Connection sock # evs) = Suc (connections evs)"
    by (simp add: connections_def)
  have u: "[Suc (clientIdCounter self) ..< Suc (clientIdCounter self + Suc (connections evs))]
      = Suc (clientIdCounter self)
        # [Suc (Suc (clientIdCounter self)) ..< Suc (Suc (clientIdCounter self) + connections evs)]"
    by (simp del: upt_Suc add: upt_conv_Cons)
  show ?case
    unfolding r n u IH c by (rule refl)
next
  case (3 env self clientId data now evs)
  then show ?case by (simp del: upt_Suc add: connections_def handleClientData_counter)
next
  case (4 env self clientId evs)
  then show ?case by (simp del: upt_Suc add: connections_def removeClient_counter)
next
  case (5 env self clientId evs)
  then show ?case by (simp del: upt_Suc add: connections_def removeClient_counter)
qed

text \<open>
  C6. Over any sequence of events from the start of the server (connections, data,
  ends and errors of sockets in any order), the client ids assigned to the \<open>N\<close>
  connections are \<open>1, 2, ..., N\<close> in acceptance order: positive, strictly
  increasing from 1, distinct, and not reused after a session has closed.
\<close>

theorem client_ids_sequential:
  "fst (run env (VPNServer_new store) evs) = [1 ..< Suc (connections evs)]
   \<and> sorted_wrt (<) (fst (run env (VPNServer_new store) evs))
   \<and> distinct (fst (run env (VPNServer_new store) evs))
   \<and> 0 \<notin> set (fst (run env (VPNServer_new store) evs))"
proof -
  have "fst (run env (VPNServer_new store) evs) = [1 ..< Suc (connections evs)]"
    using run_ids [of env "VPNServer_new store" evs] by (simp del: upt_Suc add: VPNServer_new_def)
  moreover have "sorted_wrt (<) [1 ..< Suc (connections evs)]"
    by (rule sorted_wrt_upt)
  moreover have "distinct [1 ..< Suc (connections evs)]"
    by (rule distinct_upt)
  moreover have "0 \<notin> set [1 ..< Suc (connections evs)]"
    by (simp only: set_upt atLeastLessThan_iff) simp
  ultimately show ?thesis by (simp only: simp_thms)
qed

section \<open>Listener errors\<close>

text \<open>
  C7 as stated fails: on a bind failure the handler logs and returns; nothing exits
  the process.
\<close>

theorem bind_error_exits_counterexample:
  "\<not> (\<exists>status. status \<noteq> 0 \<and> ProcessExit status \<in> set (server_on_error 8888 address_in_use))"
  by (auto simp: server_on_error_def)

text \<open>
  C7, amended. When the listener fails, the error's message is logged; when the
  failure is an address in use, a second line naming the port is logged; and the
  handler does not exit the process, whatever the error.
\<close>

theorem bind_error_logged:
  "ConsoleError (''[VPN Server] Server error: '' @ error_message err) \<in> set (server_on_error p err)
   \<and> (error_code err = Some ''EADDRINUSE'' \<longrightarrow>
        ConsoleError (''Port '' @ show_nat p @ '' is already in use'') \<in> set (server_on_error p err))
   \<and> (\<forall>status. ProcessExit status \<notin> set (server_on_error p err))"
  by (auto simp: server_on_error_def)

theorem bind_error_logged_witness:
  "error_code address_in_use = Some ''EADDRINUSE''
   \<and> server_on_error 8888 address_in_use =
       [ConsoleError ''[VPN Server] Server error: listen EADDRINUSE: address already in use 0.0.0.0:8888'',
        ConsoleError ''Port 8888 is already in use'']
   \<and> ConsoleError ''Port 8888 is already in use'' \<in> set (server_on_error 8888 address_in_use)"
proof -
  have c: "error_code address_in_use = Some ''EADDRINUSE''"
    by (simp add: address_in_use_def)
  have p: "show_nat 8888 = ''8888''"
    by (simp add: show_nat.simps)
  have "ConsoleError (''Port '' @ show_nat 8888 @ '' is already in use'')
      \<in> set (server_on_error 8888 address_in_use)"
    using bind_error_logged [of address_in_use 8888] c by blast
  then show ?thesis
    using c p by (simp add: server_on_error_def address_in_use_def)
qed

section \<open>Data messages that are not relayed\<close>

text \<open>
  C10. A data message whose \<open>encrypted\<close> field is falsy, or whose \<open>payload\<close> is
  missing or falsy, is dropped: the state after the call is the state before it with
  the sender's \<open>bytesReceived\<close> grown by the chunk's length. So nothing is written to
  any socket (no relay, no reply), the registry holds the same sessions, and the
  result does not depend on the cipher (no decryption takes part).
\<close>

theorem data_without_payload_dropped:
  assumes "map_of (clients self) clientId = Some client"
    and "JSON_parse data = Some message"
    and "get_prop message ''type'' = Inr (Some (JString ''data''))"
    and "get_prop message ''encrypted'' = Inr encrypted"
    and "get_prop message ''payload'' = Inr payload"
    and "\<not> truthy encrypted \<or> \<not> truthy payload"
  shows "handleClientData env self clientId data now =
     self\<lparr>clients := AList.update clientId
       (client\<lparr>bytesReceived := bytesReceived client + length data\<rparr>) (clients self)\<rparr>"
  using assms by (auto simp: handleClientData_def Let_def)

lemma three_clients_registry:
  "clients three_clients =
     [(1, \<lparr>client_id = 1, socket = 1, address = ''10.0.0.1'', port = 5001, connected = True,
           bytesReceived = 0, bytesSent = 0\<rparr>),
      (2, \<lparr>client_id = 2, socket = 2, address = ''10.0.0.1'', port = 5002, connected = True,
           bytesReceived = 0, bytesSent = 0\<rparr>),
      (3, \<lparr>client_id = 3, socket = 3, address = ''10.0.0.1'', port = 5003, connected = True,
           bytesReceived = 0, bytesSent = 0\<rparr>)]"
  by (simp add: three_clients_def VPNServer_new_def handleConnection_def Let_def example_sockets_def)

lemma parse_plain_data_line:
  "JSON_parse plain_data_line =
     Some (JObject [(''type'', JString ''data''), (''encrypted'', JBool False),
                    (''payload'', JString ''00'')])"
  unfolding plain_data_line_def by code_simp

theorem data_without_payload_dropped_witness:
  "map_of (clients three_clients) 1 = Some \<lparr>client_id = 1, socket = 1, address = ''10.0.0.1'',
       port = 5001, connected = True, bytesReceived = 0, bytesSent = 0\<rparr>
   \<and> JSON_parse plain_data_line =
       Some (JObject [(''type'', JString ''data''), (''encrypted'', JBool False),
                      (''payload'', JString ''00'')])
   \<and> \<not> truthy (Some (JBool False))
   \<and> handleClientData example_env three_clients 1 plain_data_line 99 =
       three_clients\<lparr>clients := AList.update 1
         \<lparr>client_id = 1, socket = 1, address = ''10.0.0.1'', port = 5001, connected = True,
          bytesReceived = 49, bytesSent = 0\<rparr> (clients three_clients)\<rparr>"
proof -
  let ?c = "\<lparr>client_id = 1, socket = 1, address = ''10.0.0.1'',
       port = 5001, connected = True, bytesReceived = 0, bytesSent = 0\<rparr>"
  let ?m = "JObject [(''type'', JString ''data''), (''encrypted'', JBool False),
                      (''payload'', JString ''00'')]"
  have reg: "map_of (clients three_clients) 1 = Some ?c"
    by (simp add: three_clients_registry)
  have ty: "get_prop ?m ''type'' = Inr (Some (JString ''data''))"
    and enc: "get_prop ?m ''encrypted'' = Inr (Some (JBool False))"
    and pay: "get_prop ?m ''payload'' = Inr (Some (JString ''00''))"
    by (simp_all add: get_prop_def)
  have falsy: "\<not> truthy (Some (JBool False))"
    by (simp add: truthy_def)
  have len: "length plain_data_line = 49"
    by (simp add: plain_data_line_def)
  from data_without_payload_dropped [OF reg parse_plain_data_line ty enc pay, of example_env 99] falsy
  have "handleClientData example_env three_clients 1 plain_data_line 99 =
     three_clients\<lparr>clients := AList.update 1
       (?c\<lparr>bytesReceived := bytesReceived ?c + length plain_data_line\<rparr>) (clients three_clients)\<rparr>"
    by blast
  then show ?thesis
    using reg parse_plain_data_line falsy len by simp
qed

section \<open>Decryption failures\<close>

text \<open>
  C4. A ciphertext that fails the cipher's final check (it is empty, or not a whole
  number of blocks, or the padding of its last block is bad) makes \<open>decrypt\<close> return
  \<open>null\<close> (\<open>None\<close>), a value and not an exception. When that happens while a data
  message is handled, the state after the call is the state before it with the
  sender's \<open>bytesReceived\<close> grown: nothing is written to any socket, so no relay is
  sent to anyone, no socket is destroyed and the sender stays registered.
\<close>

theorem decrypt_failure_contained:
  assumes "map_of (clients self) clientId = Some client"
    and "JSON_parse data = Some message"
    and "get_prop message ''type'' = Inr (Some (JString ''data''))"
    and "get_prop message ''encrypted'' = Inr encrypted"
    and "get_prop message ''payload'' = Inr (Some payload)"
    and "truthy encrypted" and "truthy (Some payload)"
    and "Buffer_from env payload = Inr buf"
    and "buf = [] \<or> length buf mod 16 \<noteq> 0 \<or> pkcs7_unpad (cbc_plain env buf) = None"
  shows "decrypt env buf = None
     \<and> handleClientData env self clientId data now =
         self\<lparr>clients := AList.update clientId
           (client\<lparr>bytesReceived := bytesReceived client + length data\<rparr>) (clients self)\<rparr>"
proof -
  from assms(9) have d: "decrypt env buf = None"
    by (auto simp: decrypt_def)
  with assms(1-8) show ?thesis
    by (simp add: handleClientData_def Let_def)
qed

lemma parse_corrupt_data_line:
  "JSON_parse corrupt_data_line =
     Some (JObject [(''type'', JString ''data''), (''encrypted'', JBool True),
                    (''payload'', JString ''01010101010101010101010101010101'')])"
  unfolding corrupt_data_line_def by code_simp

lemma hex_decode_ones: "hex_decode ''01010101010101010101010101010101'' = replicate 16 1"
  by code_simp

lemma cbc_plain_ones: "cbc_plain example_env (replicate 16 1) = replicate 16 0"
  by (simp add: cbc_plain_def example_env_def eval_nat_numeral xor_block_def)

theorem decrypt_failure_contained_witness:
  "map_of (clients three_clients) 1 = Some \<lparr>client_id = 1, socket = 1, address = ''10.0.0.1'',
       port = 5001, connected = True, bytesReceived = 0, bytesSent = 0\<rparr>
   \<and> JSON_parse corrupt_data_line =
       Some (JObject [(''type'', JString ''data''), (''encrypted'', JBool True),
                      (''payload'', JString ''01010101010101010101010101010101'')])
   \<and> Buffer_from example_env (JString ''01010101010101010101010101010101'') = Inr (replicate 16 1)
   \<and> pkcs7_unpad (cbc_plain example_env (replicate 16 1)) = None
   \<and> decrypt example_env (replicate 16 1) = None
   \<and> handleClientData example_env three_clients 1 corrupt_data_line 99 =
       three_clients\<lparr>clients := AList.update 1
         \<lparr>client_id = 1, socket = 1, address = ''10.0.0.1'', port = 5001, connected = True,
          bytesReceived = 78, bytesSent = 0\<rparr> (clients three_clients)\<rparr>"
proof -
  let ?c = "\<lparr>client_id = 1, socket = 1, address = ''10.0.0.1'',
       port = 5001, connected = True, bytesReceived = 0, bytesSent = 0\<rparr>"
  let ?p = "JString ''01010101010101010101010101010101''"
  let ?m = "JObject [(''type'', JString ''data''), (''encrypted'', JBool True), (''payload'', ?p)]"
  have reg: "map_of (clients three_clients) 1 = Some ?c"
    by (simp add: three_clients_registry)
  have ty: "get_prop ?m ''type'' = Inr (Some (JString ''data''))"
    and enc: "get_prop ?m ''encrypted'' = Inr (Some (JBool True))"
    and pay: "get_prop ?m ''payload'' = Inr (Some ?p)"
    by (simp_all add: get_prop_def)
  have t1: "truthy (Some (JBool True))" and t2: "truthy (Some ?p)"
    by (simp_all add: truthy_def)
  have asc: "is_ascii ''01010101010101010101010101010101''"
    by (simp add: is_ascii_def)
  have buf: "Buffer_from example_env ?p = Inr (replicate 16 1)"
    by (simp only: Buffer_from_def json.case asc if_True hex_decode_ones)
  have bad: "pkcs7_unpad (cbc_plain example_env (replicate 16 1)) = None"
    unfolding cbc_plain_ones by (simp add: pkcs7_unpad_def)
  then have bad': "replicate 16 1 = ([] :: buffer) \<or> length (replicate 16 1 :: buffer) mod 16 \<noteq> 0
      \<or> pkcs7_unpad (cbc_plain example_env (replicate 16 1)) = None"
    by blast
  have len: "length corrupt_data_line = 78"
    by (simp add: corrupt_data_line_def)
  from decrypt_failure_contained [OF reg parse_corrupt_data_line ty enc pay t1 t2 buf bad', of 99]
  show ?thesis
    using reg parse_corrupt_data_line buf bad len by simp
qed

section \<open>Relaying\<close>

lemma registry_ok_connected:
  "registry_ok self \<Longrightarrow> map_of (clients self) k = Some c \<Longrightarrow> connected c"
  by (auto simp: registry_ok_def list_all_iff dest: map_of_SomeD)

lemma registry_ok_socket_inj:
  assumes "registry_ok self"
    and "map_of (clients self) k1 = Some c1" and "map_of (clients self) k2 = Some c2"
    and "socket c1 = socket c2"
  shows "k1 = k2"
proof -
  from assms(1) have "inj_on (\<lambda>p. socket (snd p)) (set (clients self))"
    by (simp add: registry_ok_def distinct_map)
  moreover have "(k1, c1) \<in> set (clients self)" "(k2, c2) \<in> set (clients self)"
    using assms(2,3) by (auto dest: map_of_SomeD)
  ultimately have "(k1, c1) = (k2, c2)"
    using assms(4) inj_onD [of "\<lambda>p. socket (snd p)" "set (clients self)" "(k1, c1)" "(k2, c2)"]
    by simp
  then show ?thesis by simp
qed

lemma sendToClient_written:
  "written (sockets (sendToClient self k d) h)
   = written (sockets self h) @ (if delivers self k h then [JSON_stringify d @ ''\<newline>''] else [])"
  by (simp add: sendToClient_def delivers_def Let_def socket_write_def split: option.splits)

lemma sendToClient_delivers: "delivers (sendToClient self k d) k' h = delivers self k' h"
  by (auto simp: sendToClient_def delivers_def Let_def update_conv' split: option.splits)

lemma broadcast_fold_written:
  "written (sockets (fold (\<lambda>clientId s. if clientId \<noteq> sender then sendToClient s clientId d else s) ks self) h)
   = written (sockets self h)
     @ concat (map (\<lambda>k. if k \<noteq> sender \<and> delivers self k h then [JSON_stringify d @ ''\<newline>''] else []) ks)"
proof (induction ks arbitrary: self)
  case Nil
  then show ?case by simp
next
  case (Cons k ks)
  show ?case
  proof (cases "k = sender")
    case True
    then show ?thesis using Cons [of self] by simp
  next
    case False
    then show ?thesis
      using Cons [of "sendToClient self k d"]
      by (simp add: sendToClient_delivers sendToClient_written)
  qed
qed

lemma concat_single:
  "distinct ks \<Longrightarrow> b \<in> set ks \<Longrightarrow> \<forall>k \<in> set ks. P k \<longleftrightarrow> k = b \<Longrightarrow>
   concat (map (\<lambda>k. if P k then [x] else []) ks) = [x]"
proof (induction ks)
  case Nil
  then show ?case by simp
next
  case (Cons k ks)
  show ?case
  proof (cases "k = b")
    case True
    with Cons.prems have "\<forall>k' \<in> set ks. \<not> P k'" by auto
    then have "concat (map (\<lambda>k. if P k then [x] else []) ks) = []"
      by (induction ks) simp_all
    with True Cons.prems show ?thesis by simp
  next
    case False
    with Cons show ?thesis by auto
  qed
qed

lemma concat_none:
  "\<forall>k \<in> set ks. \<not> P k \<Longrightarrow> concat (map (\<lambda>k. if P k then [x] else []) ks) = []"
  by (induction ks) simp_all

text \<open>
  C5. In a registry that holds the sessions \<open>a\<close>, \<open>b\<close> and \<open>c\<close>, when \<open>a\<close> sends a data
  message with a truthy \<open>encrypted\<close> and a string payload whose hex decoding (the
  buffer that \<open>Buffer.from\<close> makes of it) decrypts to \<open>P\<close>, exactly
  one line is written to the socket of \<open>b\<close> and one to the socket of \<open>c\<close>: the relay
  message with \<open>fromClient\<close> the id of \<open>a\<close> and \<open>data\<close> the hex of \<open>P\<close>; nothing is
  written to the socket of \<open>a\<close>.
\<close>

theorem relay_to_others:
  assumes ok: "registry_ok self"
    and A: "map_of (clients self) a = Some clientA"
    and B: "map_of (clients self) b = Some clientB"
    and C: "map_of (clients self) c = Some clientC"
    and ne: "a \<noteq> b" "a \<noteq> c" "b \<noteq> c"
    and parsed: "JSON_parse data = Some message"
    and ty: "get_prop message ''type'' = Inr (Some (JString ''data''))"
    and enc: "get_prop message ''encrypted'' = Inr encrypted" "truthy encrypted"
    and pay: "get_prop message ''payload'' = Inr (Some (JString payload))"
    and buf: "Buffer_from env (JString payload) = Inr encryptedBuffer"
    and dec: "decrypt env encryptedBuffer = Some P"
  shows "written (sockets (handleClientData env self a data now) (socket clientB))
       = written (sockets self (socket clientB))
         @ [''{\"type\":\"relay\",\"fromClient\":'' @ show_nat a @ '',\"data\":\"'' @ hex_encode P @ ''\"}\<newline>'']
     \<and> written (sockets (handleClientData env self a data now) (socket clientC))
       = written (sockets self (socket clientC))
         @ [''{\"type\":\"relay\",\"fromClient\":'' @ show_nat a @ '',\"data\":\"'' @ hex_encode P @ ''\"}\<newline>'']
     \<and> written (sockets (handleClientData env self a data now) (socket clientA))
       = written (sockets self (socket clientA))"
proof -
  let ?relay = "[(''type'', Str ''relay''), (''fromClient'', Num (int a)), (''data'', Str (hex_encode P))]"
  let ?line = "''{\"type\":\"relay\",\"fromClient\":'' @ show_nat a @ '',\"data\":\"'' @ hex_encode P @ ''\"}\<newline>''"
  define counted where "counted = self\<lparr>clients := AList.update a
      (clientA\<lparr>bytesReceived := bytesReceived clientA + length data\<rparr>) (clients self)\<rparr>"
  have line: "JSON_stringify ?relay @ ''\<newline>'' = ?line"
    by (simp add: JSON_stringify_def stringify_field_def show_int_def)
  from dec have "encryptedBuffer \<noteq> []"
    by (auto simp: decrypt_def)
  with buf have "payload \<noteq> []"
    by (auto simp: Buffer_from_def is_ascii_def)
  then have tp: "truthy (Some (JString payload))"
    by (simp add: truthy_def)
  have h: "handleClientData env self a data now = broadcastToOthers counted a ?relay"
    using A parsed ty enc pay tp buf dec
    by (simp add: handleClientData_def Let_def counted_def)
  have del: "delivers counted k h \<longleftrightarrow> delivers self k h" for k h
    using A by (auto simp: counted_def delivers_def update_conv')
  have socks: "sockets counted = sockets self"
    by (simp add: counted_def)
  have keys: "set (Object_keys (clients counted)) = dom (map_of (clients self)) \<union> {a}"
    by (simp add: Object_keys_set counted_def update_conv')
  have written: "written (sockets (handleClientData env self a data now) h)
      = written (sockets self h)
        @ concat (map (\<lambda>k. if k \<noteq> a \<and> delivers self k h then [?line] else [])
            (Object_keys (clients counted)))" for h
    unfolding h broadcastToOthers_def broadcast_fold_written line
    by (simp add: del socks)
  have one: "concat (map (\<lambda>k. if k \<noteq> a \<and> delivers self k (socket x) then [?line] else [])
      (Object_keys (clients counted))) = [?line]"
    if x: "map_of (clients self) k0 = Some x" and k0: "k0 \<noteq> a" for k0 x
  proof (rule concat_single [OF Object_keys_distinct, of k0])
    show "k0 \<in> set (Object_keys (clients counted))"
      using x by (auto simp: keys)
    show "\<forall>k \<in> set (Object_keys (clients counted)).
        (k \<noteq> a \<and> delivers self k (socket x)) \<longleftrightarrow> k = k0"
    proof
      fix k
      assume "k \<in> set (Object_keys (clients counted))"
      show "(k \<noteq> a \<and> delivers self k (socket x)) \<longleftrightarrow> k = k0"
      proof
        assume "k \<noteq> a \<and> delivers self k (socket x)"
        then obtain y where "map_of (clients self) k = Some y" "socket y = socket x"
          by (auto simp: delivers_def split: option.splits)
        then show "k = k0"
          using registry_ok_socket_inj [OF ok _ x] by blast
      next
        assume "k = k0"
        then show "k \<noteq> a \<and> delivers self k (socket x)"
          using x k0 registry_ok_connected [OF ok x] by (simp add: delivers_def)
      qed
    qed
  qed
  have none: "concat (map (\<lambda>k. if k \<noteq> a \<and> delivers self k (socket clientA) then [?line] else [])
      (Object_keys (clients counted))) = []"
  proof (rule concat_none, rule ballI)
    fix k
    assume "k \<in> set (Object_keys (clients counted))"
    show "\<not> (k \<noteq> a \<and> delivers self k (socket clientA))"
    proof
      assume "k \<noteq> a \<and> delivers self k (socket clientA)"
      then obtain y where "k \<noteq> a" "map_of (clients self) k = Some y" "socket y = socket clientA"
        by (auto simp: delivers_def split: option.splits)
      then show False
        using registry_ok_socket_inj [OF ok _ A] by blast
    qed
  qed
  show ?thesis
    using written [of "socket clientB"] written [of "socket clientC"] written [of "socket clientA"]
      one [OF B] one [OF C] none ne
    by simp
qed

section \<open>The registry stays well-formed\<close>

lemma update_keys_existing:
  "map_of al k = Some v \<Longrightarrow> map fst (AList.update k v' al) = map fst al"
  by (induction al) auto

lemma update_field_existing:
  "map_of al k = Some v \<Longrightarrow> f v' = f v \<Longrightarrow>
   map (\<lambda>p. f (snd p)) (AList.update k v' al) = map (\<lambda>p. f (snd p)) al"
  by (induction al) auto

lemma update_fresh: "k \<notin> fst ` set al \<Longrightarrow> AList.update k v al = al @ [(k, v)]"
  by (induction al) auto

lemma registry_ok_update:
  assumes "registry_ok self" and "map_of (clients self) k = Some c"
    and "socket c' = socket c" and "connected c' = connected c"
  shows "registry_ok (self\<lparr>clients := AList.update k c' (clients self)\<rparr>)"
    and "map (\<lambda>p. socket (snd p)) (AList.update k c' (clients self))
         = map (\<lambda>p. socket (snd p)) (clients self)"
proof -
  have keys: "map fst (AList.update k c' (clients self)) = map fst (clients self)"
    using assms(2) by (rule update_keys_existing)
  show socks: "map (\<lambda>p. socket (snd p)) (AList.update k c' (clients self))
      = map (\<lambda>p. socket (snd p)) (clients self)"
    using assms(2,3) by (rule update_field_existing)
  have conn: "map (\<lambda>p. connected (snd p)) (AList.update k c' (clients self))
      = map (\<lambda>p. connected (snd p)) (clients self)"
    using assms(2,4) by (rule update_field_existing)
  have la: "list_all (\<lambda>p. connected (snd p)) al \<longleftrightarrow> (\<forall>x \<in> set (map (\<lambda>p. connected (snd p)) al). x)"
    for al :: "(nat \<times> clientInfo) list"
    by (auto simp: list_all_iff)
  have lk: "list_all (\<lambda>p. fst p \<le> n) al \<longleftrightarrow> (\<forall>x \<in> set (map fst al). x \<le> n)"
    for al :: "(nat \<times> clientInfo) list" and n
    by (auto simp: list_all_iff)
  show "registry_ok (self\<lparr>clients := AList.update k c' (clients self)\<rparr>)"
    using assms(1) unfolding registry_ok_def la lk
    by (simp add: keys socks conn)
qed

lemma sendToClient_ok:
  assumes "registry_ok self"
  shows "registry_ok (sendToClient self k d)
     \<and> map (\<lambda>p. socket (snd p)) (clients (sendToClient self k d))
         = map (\<lambda>p. socket (snd p)) (clients self)"
proof (cases "map_of (clients self) k")
  case None
  then show ?thesis using assms by (simp add: sendToClient_def)
next
  case (Some c)
  let ?c' = "c\<lparr>bytesSent := bytesSent c + length (JSON_stringify d @ ''\<newline>'')\<rparr>"
  have "registry_ok (self\<lparr>clients := AList.update k ?c' (clients self)\<rparr>)"
    and "map (\<lambda>p. socket (snd p)) (AList.update k ?c' (clients self))
         = map (\<lambda>p. socket (snd p)) (clients self)"
    using registry_ok_update [OF assms Some, of ?c'] by simp_all
  then show ?thesis
    using Some assms by (simp add: sendToClient_def Let_def registry_ok_def)
qed

lemma broadcastToOthers_ok:
  assumes "registry_ok self"
  shows "registry_ok (broadcastToOthers self sender d)
     \<and> map (\<lambda>p. socket (snd p)) (clients (broadcastToOthers self sender d))
         = map (\<lambda>p. socket (snd p)) (clients self)"
proof -
  have "registry_ok s \<Longrightarrow>
      registry_ok (fold (\<lambda>clientId s. if clientId \<noteq> sender then sendToClient s clientId d else s) ks s)
      \<and> map (\<lambda>p. socket (snd p)) (clients (fold (\<lambda>clientId s. if clientId \<noteq> sender then sendToClient s clientId d else s) ks s))
          = map (\<lambda>p. socket (snd p)) (clients s)" for ks s
  proof (induction ks arbitrary: s)
    case Nil
    then show ?case by simp
  next
    case (Cons k ks)
    show ?case
    proof (cases "k = sender")
      case True
      then show ?thesis using Cons by simp
    next
      case False
      then show ?thesis
        using Cons.IH [of "sendToClient s k d"] sendToClient_ok [OF Cons.prems, of k d]
        by simp
    qed
  qed
  then show ?thesis using assms by (simp add: broadcastToOthers_def)
qed

lemma handleClientData_cases:
  assumes "map_of (clients self) k = Some c"
    and "P (self\<lparr>clients := AList.update k
           (c\<lparr>bytesReceived := bytesReceived c + length data\<rparr>) (clients self)\<rparr>)"
    and "\<And>d. P (sendToClient (self\<lparr>clients := AList.update k
           (c\<lparr>bytesReceived := bytesReceived c + length data\<rparr>) (clients self)\<rparr>) k d)"
    and "\<And>d. P (broadcastToOthers (self\<lparr>clients := AList.update k
           (c\<lparr>bytesReceived := bytesReceived c + length data\<rparr>) (clients self)\<rparr>) k d)"
  shows "P (handleClientData env self k data now)"
  using assms
  by (simp add: handleClientData_def Let_def split: option.splits sum.splits)

lemma handleClientData_ok:
  assumes "registry_ok self"
  shows "registry_ok (handleClientData env self k data now)
     \<and> map (\<lambda>p. socket (snd p)) (clients (handleClientData env self k data now))
         = map (\<lambda>p. socket (snd p)) (clients self)"
proof (cases "map_of (clients self) k")
  case None
  then show ?thesis using assms by (simp add: handleClientData_def)
next
  case (Some c)
  define counted where "counted = self\<lparr>clients := AList.update k
      (c\<lparr>bytesReceived := bytesReceived c + length data\<rparr>) (clients self)\<rparr>"
  have ok: "registry_ok counted"
    and socks: "map (\<lambda>p. socket (snd p)) (clients counted) = map (\<lambda>p. socket (snd p)) (clients self)"
    using registry_ok_update [OF assms Some, of "c\<lparr>bytesReceived := bytesReceived c + length data\<rparr>"]
    by (simp_all add: counted_def)
  show ?thesis
  proof (rule handleClientData_cases [OF Some])
    show "registry_ok (self\<lparr>clients := AList.update k
           (c\<lparr>bytesReceived := bytesReceived c + length data\<rparr>) (clients self)\<rparr>)
        \<and> map (\<lambda>p. socket (snd p)) (clients (self\<lparr>clients := AList.update k
           (c\<lparr>bytesReceived := bytesReceived c + length data\<rparr>) (clients self)\<rparr>))
          = map (\<lambda>p. socket (snd p)) (clients self)"
      using ok socks by (simp add: counted_def)
    show "registry_ok (sendToClient (self\<lparr>clients := AList.update k
           (c\<lparr>bytesReceived := bytesReceived c + length data\<rparr>) (clients self)\<rparr>) k d)
        \<and> map (\<lambda>p. socket (snd p)) (clients (sendToClient (self\<lparr>clients := AList.update k
           (c\<lparr>bytesReceived := bytesReceived c + length data\<rparr>) (clients self)\<rparr>) k d))
          = map (\<lambda>p. socket (snd p)) (clients self)" for d
      using sendToClient_ok [OF ok, of k d] socks by (simp add: counted_def)
    show "registry_ok (broadcastToOthers (self\<lparr>clients := AList.update k
           (c\<lparr>bytesReceived := bytesReceived c + length data\<rparr>) (clients self)\<rparr>) k d)
        \<and> map (\<lambda>p. socket (snd p)) (clients (broadcastToOthers (self\<lparr>clients := AList.update k
           (c\<lparr>bytesReceived := bytesReceived c + length data\<rparr>) (clients self)\<rparr>) k d))
          = map (\<lambda>p. socket (snd p)) (clients self)" for d
      using broadcastToOthers_ok [OF ok, of k d] socks by (simp add: counted_def)
  qed
qed

lemma removeClient_ok:
  assumes "registry_ok self"
  shows "registry_ok (removeClient self k)
     \<and> set (map (\<lambda>p. socket (snd p)) (clients (removeClient self k)))
         \<subseteq> set (map (\<lambda>p. socket (snd p)) (clients self))"
proof (cases "map_of (clients self) k")
  case None
  then show ?thesis using assms by (simp add: removeClient_def)
next
  case (Some c)
  have "clients (removeClient self k) = AList.delete k (clients self)"
    using Some by (simp add: removeClient_def Let_def delete_update_same)
  also have "\<dots> = filter (\<lambda>p. fst p \<noteq> k) (clients self)"
    unfolding AList.delete_eq by (rule filter_cong) auto
  finally have cl: "clients (removeClient self k) = filter (\<lambda>p. fst p \<noteq> k) (clients self)" .
  have cnt: "clientIdCounter (removeClient self k) = clientIdCounter self"
    using Some by (simp add: removeClient_def Let_def)
  show ?thesis
    using assms unfolding registry_ok_def cl cnt
    by (auto simp: distinct_map_filter list_all_iff)
qed

lemma handleConnection_ok:
  assumes "registry_ok self" and "sock \<notin> set (map (\<lambda>p. socket (snd p)) (clients self))"
  shows "registry_ok (snd (handleConnection env self sock))
     \<and> map (\<lambda>p. socket (snd p)) (clients (snd (handleConnection env self sock)))
         = map (\<lambda>p. socket (snd p)) (clients self) @ [sock]"
proof -
  from assms(1) have le: "\<forall>p \<in> set (clients self). fst p \<le> clientIdCounter self"
    by (simp add: registry_ok_def list_all_iff)
  then have fresh: "Suc (clientIdCounter self) \<notin> fst ` set (clients self)" by auto
  show ?thesis
    using assms le
    by (auto simp: handleConnection_def Let_def update_fresh [OF fresh] registry_ok_def list_all_iff)
qed

lemma inter_empty_subset: "A \<inter> S = {} \<Longrightarrow> S' \<subseteq> S \<Longrightarrow> A \<inter> S' = {}"
  by blast

lemma registry_ok_run:
  "registry_ok self \<Longrightarrow> distinct (accepted_sockets evs) \<Longrightarrow>
   set (accepted_sockets evs) \<inter> set (map (\<lambda>p. socket (snd p)) (clients self)) = {} \<Longrightarrow>
   registry_ok (snd (run env self evs))"
proof (induction env self evs rule: run.induct)
  case (1 env self)
  then show ?case by simp
next
  case (2 env self sock evs)
  obtain clientId self' where h: "handleConnection env self sock = (clientId, self')"
    by (cases "handleConnection env self sock")
  from 2(4) have fresh: "sock \<notin> set (map (\<lambda>p. socket (snd p)) (clients self))"
    by simp
  from handleConnection_ok [OF 2(2) fresh, of env] h
  have ok: "registry_ok self'"
    and socks: "map (\<lambda>p. socket (snd p)) (clients self') = map (\<lambda>p. socket (snd p)) (clients self) @ [sock]"
    by simp_all
  have "registry_ok (snd (run env self' evs))"
  proof (rule 2(1) [OF h [symmetric] refl ok])
    show "distinct (accepted_sockets evs)" using 2(3) by simp
    have "sock \<notin> set (accepted_sockets evs)" using 2(3) by simp
    moreover have "set (accepted_sockets evs) \<inter> set (map (\<lambda>p. socket (snd p)) (clients self)) = {}"
      using 2(4) by simp
    ultimately show "set (accepted_sockets evs) \<inter> set (map (\<lambda>p. socket (snd p)) (clients self')) = {}"
      unfolding socks by simp
  qed
  moreover have "snd (run env self (Connection sock # evs)) = snd (run env self' evs)"
    using h by (simp split: prod.splits)
  ultimately show ?case by (simp only:)
next
  case (3 env self clientId data now evs)
  have ok: "registry_ok (handleClientData env self clientId data now)"
    and socks: "map (\<lambda>p. socket (snd p)) (clients (handleClientData env self clientId data now))
        = map (\<lambda>p. socket (snd p)) (clients self)"
    using handleClientData_ok [OF 3(2), of env clientId data now] by simp_all
  from 3(4)
  have "set (accepted_sockets evs)
      \<inter> set (map (\<lambda>p. socket (snd p)) (clients (handleClientData env self clientId data now))) = {}"
    unfolding socks by simp
  moreover from 3(3) have "distinct (accepted_sockets evs)" by simp
  ultimately show ?case using 3(1) [OF ok] by simp
next
  case (4 env self clientId evs)
  have ok: "registry_ok (removeClient self clientId)"
    and sub: "set (map (\<lambda>p. socket (snd p)) (clients (removeClient self clientId)))
        \<subseteq> set (map (\<lambda>p. socket (snd p)) (clients self))"
    using removeClient_ok [OF 4(2), of clientId] by simp_all
  from 4(3) have d: "distinct (accepted_sockets evs)" by simp
  from 4(4) have "set (accepted_sockets evs) \<inter> set (map (\<lambda>p. socket (snd p)) (clients self)) = {}"
    by simp
  then have "set (accepted_sockets evs)
      \<inter> set (map (\<lambda>p. socket (snd p)) (clients (removeClient self clientId))) = {}"
    using sub by (rule inter_empty_subset)
  with 4(1) [OF ok d] show ?case by simp
next
  case (5 env self clientId evs)
  have ok: "registry_ok (removeClient self clientId)"
    and sub: "set (map (\<lambda>p. socket (snd p)) (clients (removeClient self clientId)))
        \<subseteq> set (map (\<lambda>p. socket (snd p)) (clients self))"
    using removeClient_ok [OF 5(2), of clientId] by simp_all
  from 5(3) have d: "distinct (accepted_sockets evs)" by simp
  from 5(4) have "set (accepted_sockets evs) \<inter> set (map (\<lambda>p. socket (snd p)) (clients self)) = {}"
    by simp
  then have "set (accepted_sockets evs)
      \<inter> set (map (\<lambda>p. socket (snd p)) (clients (removeClient self clientId))) = {}"
    using sub by (rule inter_empty_subset)
  with 5(1) [OF ok d] show ?case by simp
qed

lemma registry_ok_reachable:
  "distinct (accepted_sockets evs) \<Longrightarrow> registry_ok (snd (run env (VPNServer_new store) evs))"
  by (rule registry_ok_run) (simp_all add: registry_ok_def VPNServer_new_def)

lemma three_clients_ok: "registry_ok three_clients"
  unfolding three_clients_def by (rule registry_ok_reachable) simp

lemma parse_hi_data_line:
  "JSON_parse hi_data_line =
     Some (JObject [(''type'', JString ''data''), (''encrypted'', JBool True),
                    (''payload'', JString ''0f0f0f0f0f0f0f0f0f0f0f0f0f0f6869'')])"
  unfolding hi_data_line_def by code_simp

lemma hex_decode_hi:
  "hex_decode ''0f0f0f0f0f0f0f0f0f0f0f0f0f0f6869''
   = [15, 15, 15, 15, 15, 15, 15, 15, 15, 15, 15, 15, 15, 15, 0x68, 0x69]"
  by code_simp

lemma decrypt_hi:
  "decrypt example_env [15, 15, 15, 15, 15, 15, 15, 15, 15, 15, 15, 15, 15, 15, 0x68, 0x69]
   = Some [0x68, 0x69]"
proof -
  have "cbc_plain example_env [15, 15, 15, 15, 15, 15, 15, 15, 15, 15, 15, 15, 15, 15, 0x68, 0x69]
      = [0x68, 0x69, 14, 14, 14, 14, 14, 14, 14, 14, 14, 14, 14, 14, 14, 14]"
    by (simp add: cbc_plain_def example_env_def xor_block_def eval_nat_numeral)
  moreover have "pkcs7_unpad [0x68, 0x69, 14, 14, 14, 14, 14, 14, 14, 14, 14, 14, 14, 14, 14, 14 :: byte]
      = Some [0x68, 0x69]"
    by code_simp
  ultimately show ?thesis
    by (simp add: decrypt_def)
qed

theorem relay_to_others_witness:
  "registry_ok three_clients
   \<and> JSON_parse hi_data_line =
       Some (JObject [(''type'', JString ''data''), (''encrypted'', JBool True),
                      (''payload'', JString ''0f0f0f0f0f0f0f0f0f0f0f0f0f0f6869'')])
   \<and> Buffer_from example_env (JString ''0f0f0f0f0f0f0f0f0f0f0f0f0f0f6869'')
       = Inr [15, 15, 15, 15, 15, 15, 15, 15, 15, 15, 15, 15, 15, 15, 0x68, 0x69]
   \<and> decrypt example_env [15, 15, 15, 15, 15, 15, 15, 15, 15, 15, 15, 15, 15, 15, 0x68, 0x69]
       = Some [0x68, 0x69]
   \<and> written (sockets (handleClientData example_env three_clients 1 hi_data_line 99) 2)
       = written (sockets three_clients 2)
         @ [''{\"type\":\"relay\",\"fromClient\":1,\"data\":\"6869\"}\<newline>'']
   \<and> written (sockets (handleClientData example_env three_clients 1 hi_data_line 99) 3)
       = written (sockets three_clients 3)
         @ [''{\"type\":\"relay\",\"fromClient\":1,\"data\":\"6869\"}\<newline>'']
   \<and> written (sockets (handleClientData example_env three_clients 1 hi_data_line 99) 1)
       = written (sockets three_clients 1)"
proof -
  let ?A = "\<lparr>client_id = 1, socket = 1, address = ''10.0.0.1'', port = 5001, connected = True,
           bytesReceived = 0, bytesSent = 0\<rparr>"
  let ?B = "\<lparr>client_id = 2, socket = 2, address = ''10.0.0.1'', port = 5002, connected = True,
           bytesReceived = 0, bytesSent = 0\<rparr>"
  let ?C = "\<lparr>client_id = 3, socket = 3, address = ''10.0.0.1'', port = 5003, connected = True,
           bytesReceived = 0, bytesSent = 0\<rparr>"
  let ?p = "''0f0f0f0f0f0f0f0f0f0f0f0f0f0f6869''"
  let ?m = "JObject [(''type'', JString ''data''), (''encrypted'', JBool True), (''payload'', JString ?p)]"
  have A: "map_of (clients three_clients) 1 = Some ?A"
    and B: "map_of (clients three_clients) 2 = Some ?B"
    and C: "map_of (clients three_clients) 3 = Some ?C"
    by (simp_all add: three_clients_registry)
  have ty: "get_prop ?m ''type'' = Inr (Some (JString ''data''))"
    and enc: "get_prop ?m ''encrypted'' = Inr (Some (JBool True))"
    and pay: "get_prop ?m ''payload'' = Inr (Some (JString ?p))"
    by (simp_all add: get_prop_def)
  have t: "truthy (Some (JBool True))"
    by (simp add: truthy_def)
  have asc: "is_ascii ?p"
    by (simp add: is_ascii_def)
  have buf: "Buffer_from example_env (JString ?p)
      = Inr [15, 15, 15, 15, 15, 15, 15, 15, 15, 15, 15, 15, 15, 15, 0x68, 0x69]"
    by (simp only: Buffer_from_def json.case asc if_True hex_decode_hi)
  have one: "show_nat (Suc 0) = ''1''"
    by (simp add: show_nat.simps)
  have hex: "hex_encode [0x68, 0x69] = ''6869''"
    by (simp add: hex_encode_def hex_digit_def)
  have ne: "(1::nat) \<noteq> 2" "(1::nat) \<noteq> 3" "(2::nat) \<noteq> 3"
    by simp_all
  from relay_to_others [OF three_clients_ok A B C ne parse_hi_data_line ty enc t pay buf decrypt_hi, of 99]
  show ?thesis
    using three_clients_ok parse_hi_data_line buf decrypt_hi by (simp add: one hex)
qed

section \<open>Chunks and messages\<close>

text \<open>
  C1. The claim is that a message whose line arrives in pieces, or together with
  other lines, is decoded once all the same. The handler has no buffer: it parses
  each chunk by itself, and a chunk that is not one JSON text leaves the state with
  only the byte count grown. So the two halves of a ping are both dropped and no pong
  is written, while the whole line in one chunk is answered.
\<close>

theorem chunk_not_json_only_counted:
  assumes "map_of (clients self) clientId = Some client"
    and "JSON_parse data = None"
  shows "handleClientData env self clientId data now =
     self\<lparr>clients := AList.update clientId
       (client\<lparr>bytesReceived := bytesReceived client + length data\<rparr>) (clients self)\<rparr>"
  using assms by (simp add: handleClientData_def Let_def)

lemma parse_ping_line:
  "JSON_parse ping_line = Some (JObject [(''type'', JString ''ping''), (''timestamp'', JNumber 7)])"
  unfolding ping_line_def by code_simp

lemma parse_ping_head: "JSON_parse ping_head = None"
  unfolding ping_head_def by code_simp

lemma parse_ping_tail: "JSON_parse ping_tail = None"
  unfolding ping_tail_def by code_simp

lemma parse_two_lines: "JSON_parse (ping_line @ ping_line) = None"
  unfolding ping_line_def by code_simp

lemma two_clients_first:
  "map_of (clients two_clients) 1 = Some \<lparr>client_id = 1, socket = 1, address = ''10.0.0.1'',
       port = 5001, connected = True, bytesReceived = 0, bytesSent = 0\<rparr>"
  by (simp add: two_clients_registry)

theorem chunk_not_json_only_counted_witness:
  "ping_head @ ping_tail = ping_line
   \<and> JSON_parse ping_line = Some (JObject [(''type'', JString ''ping''), (''timestamp'', JNumber 7)])
   \<and> JSON_parse ping_head = None \<and> JSON_parse ping_tail = None
   \<and> JSON_parse (ping_line @ ping_line) = None
   \<and> sockets (handleClientData example_env
         (handleClientData example_env two_clients 1 ping_head 99) 1 ping_tail 99)
       = sockets two_clients
   \<and> sockets (handleClientData example_env two_clients 1 (ping_line @ ping_line) 99)
       = sockets two_clients"
proof -
  let ?c = "\<lparr>client_id = 1, socket = 1, address = ''10.0.0.1'',
       port = 5001, connected = True, bytesReceived = 0, bytesSent = 0\<rparr>"
  let ?c1 = "?c\<lparr>bytesReceived := bytesReceived ?c + length ping_head\<rparr>"
  let ?s1 = "two_clients\<lparr>clients := AList.update 1 ?c1 (clients two_clients)\<rparr>"
  have cat: "ping_head @ ping_tail = ping_line"
    by (simp add: ping_head_def ping_tail_def ping_line_def)
  have h1: "handleClientData example_env two_clients 1 ping_head 99 = ?s1"
    using chunk_not_json_only_counted [OF two_clients_first parse_ping_head] .
  have reg1: "map_of (clients ?s1) 1 = Some ?c1"
    by (simp add: update_conv')
  have h2: "handleClientData example_env ?s1 1 ping_tail 99 =
      ?s1\<lparr>clients := AList.update 1
        (?c1\<lparr>bytesReceived := bytesReceived ?c1 + length ping_tail\<rparr>) (clients ?s1)\<rparr>"
    using chunk_not_json_only_counted [OF reg1 parse_ping_tail] .
  have h3: "handleClientData example_env two_clients 1 (ping_line @ ping_line) 99 =
      two_clients\<lparr>clients := AList.update 1
        (?c\<lparr>bytesReceived := bytesReceived ?c + length (ping_line @ ping_line)\<rparr>) (clients two_clients)\<rparr>"
    using chunk_not_json_only_counted [OF two_clients_first parse_two_lines] .
  have a: "sockets (handleClientData example_env
         (handleClientData example_env two_clients 1 ping_head 99) 1 ping_tail 99)
       = sockets two_clients"
    unfolding h1 h2 by simp
  have b: "sockets (handleClientData example_env two_clients 1 (ping_line @ ping_line) 99)
       = sockets two_clients"
    unfolding h3 by simp
  show ?thesis
    using cat parse_ping_line parse_ping_head parse_ping_tail parse_two_lines a b
    by (simp only: simp_thms)
qed

text \<open>
  C2. The claim is that the pong carries the timestamp of the ping. The handler
  never reads the ping's \<open>timestamp\<close>: the pong it writes carries \<open>Date.now()\<close>, the
  server's clock at the time of the call.
\<close>

theorem pong_carries_server_time:
  assumes "map_of (clients self) clientId = Some client" and "connected client"
    and "JSON_parse data = Some message"
    and "get_prop message ''type'' = Inr (Some (JString ''ping''))"
  shows "written (sockets (handleClientData env self clientId data now) (socket client))
     = written (sockets self (socket client))
       @ [''{\"type\":\"pong\",\"timestamp\":'' @ show_int now @ ''}\<newline>'']"
proof -
  define counted where "counted = self\<lparr>clients := AList.update clientId
      (client\<lparr>bytesReceived := bytesReceived client + length data\<rparr>) (clients self)\<rparr>"
  from assms(4) obtain encrypted payload where
    "get_prop message ''encrypted'' = Inr encrypted" "get_prop message ''payload'' = Inr payload"
    by (auto simp: get_prop_def split: json.splits)
  with assms have h: "handleClientData env self clientId data now
      = sendToClient counted clientId [(''type'', Str ''pong''), (''timestamp'', Num now)]"
    by (simp add: handleClientData_def Let_def counted_def)
  have d: "delivers counted clientId (socket client)"
    using assms(1,2) by (simp add: delivers_def counted_def update_conv')
  have line: "JSON_stringify [(''type'', Str ''pong''), (''timestamp'', Num now)] @ ''\<newline>''
      = ''{\"type\":\"pong\",\"timestamp\":'' @ show_int now @ ''}\<newline>''"
    by (simp add: JSON_stringify_def stringify_field_def)
  show ?thesis
    unfolding h sendToClient_written line using d by (simp add: counted_def)
qed

theorem pong_carries_server_time_witness:
  "map_of (clients two_clients) 1 = Some \<lparr>client_id = 1, socket = 1, address = ''10.0.0.1'',
       port = 5001, connected = True, bytesReceived = 0, bytesSent = 0\<rparr>
   \<and> JSON_parse ping_line = Some (JObject [(''type'', JString ''ping''), (''timestamp'', JNumber 7)])
   \<and> written (sockets (handleClientData example_env two_clients 1 ping_line 99) 1)
       = written (sockets two_clients 1) @ [''{\"type\":\"pong\",\"timestamp\":99}\<newline>'']"
proof -
  let ?c = "\<lparr>client_id = 1, socket = 1, address = ''10.0.0.1'',
       port = 5001, connected = True, bytesReceived = 0, bytesSent = 0\<rparr>"
  have ty: "get_prop (JObject [(''type'', JString ''ping''), (''timestamp'', JNumber 7)]) ''type''
      = Inr (Some (JString ''ping''))"
    by (simp add: get_prop_def)
  have n: "show_int 99 = ''99''"
    by (simp add: show_int_def show_nat.simps)
  have c: "connected ?c" by simp
  from pong_carries_server_time [OF two_clients_first c parse_ping_line ty, of example_env 99]
  show ?thesis
    using two_clients_first parse_ping_line by (simp add: n)
qed

end
